theory Spec2Isabelle
  imports Main "HOL-Library.Word" "HOL-Library.Multiset"
begin

section \<open>Data model (cache\_simulator.hpp)\<close>

text \<open>
  All \<^verbatim>\<open>uint32_t\<close> fields are 32-bit words: \<open>+\<close>, \<open>-\<close> wrap, \<open>unat\<close> reads a
  word as an index.  An out-of-range \<^verbatim>\<open>operator[]\<close> and a division by zero are
  undefined behaviour in C++; the model returns them as a \<open>fault\<close>.
\<close>

type_synonym u32 = "32 word"

datatype fault = OutOfRange | DivisionByZero

text \<open>
  The three enumerators of \<^verbatim>\<open>CacheReplacement_t\<close>.  (The constructor casts its
  \<^verbatim>\<open>uint32_t\<close> argument to the enum; a value above 2 is none of the three policies
  and is outside the model.)
\<close>

datatype CacheReplacement_t = RANDOM | LRU | PSEUDO_LRU

text \<open>
  \<^verbatim>\<open>class CacheBlock\<close>.  The payload \<^verbatim>\<open>data\<close> is allocated and never read, so it is
  left out.  The constructor sets \<^verbatim>\<open>valid\<close> and \<^verbatim>\<open>dirty\<close> to false and does not
  assign \<^verbatim>\<open>tag\<close>: the value the field holds in a fresh block is whatever the
  allocator left there, and is a parameter of \<open>CacheBlock_new\<close>.
\<close>

record CacheBlock =
  tag :: u32
  dirty :: bool
  valid :: bool

definition CacheBlock_new :: "u32 \<Rightarrow> CacheBlock" where
  "CacheBlock_new unset_tag = \<lparr>tag = unset_tag, dirty = False, valid = False\<rparr>"

record AccessInfo =
  cache_access :: u32
  read_access :: u32
  write_access :: u32
  cache_misses :: u32
  compulsory_misses :: u32
  capacity_misses :: u32
  conflict_misses :: u32
  read_misses :: u32
  write_misses :: u32
  dirty_blocks_evicted :: u32

definition AccessInfo_new :: AccessInfo where
  "AccessInfo_new =
     \<lparr>cache_access = 0, read_access = 0, write_access = 0, cache_misses = 0,
      compulsory_misses = 0, capacity_misses = 0, conflict_misses = 0,
      read_misses = 0, write_misses = 0, dirty_blocks_evicted = 0\<rparr>"

text \<open>
  \<^verbatim>\<open>class CacheReplace\<close>.  \<^verbatim>\<open>rand()\<close> is the C library's generator: the
  numbers it will return are the sequence \<open>rand_seq\<close>, and \<open>rand_pos\<close> counts the
  calls made so far.
\<close>

record CacheReplace =
  repl_num_sets :: u32
  ways :: u32
  replacement_policy :: CacheReplacement_t
  meta_data :: "int list list"
  rand_seq :: "nat \<Rightarrow> nat"
  rand_pos :: nat

section \<open>Replacement policy (cache\_base.cpp)\<close>

text \<open>
  The constructor: for pseudo-LRU every set gets a vector of \<open>2 * ways - 1\<close> cells,
  the first \<open>ways - 1\<close> set to 0 and the last \<open>ways\<close> set to -1; for the other
  policies \<^verbatim>\<open>meta_data\<close> stays empty.
\<close>

definition CacheReplace_new ::
  "CacheReplacement_t \<Rightarrow> u32 \<Rightarrow> u32 \<Rightarrow> (nat \<Rightarrow> nat) \<Rightarrow> CacheReplace" where
  "CacheReplace_new policy nsets nways rnd =
     \<lparr>repl_num_sets = nsets, ways = nways, replacement_policy = policy,
      meta_data =
        (if policy = PSEUDO_LRU
         then replicate (unat nsets)
                (replicate (unat (nways - 1)) 0 @
                 replicate (unat (2 * nways - 1) - unat (nways - 1)) (- 1))
         else []),
      rand_seq = rnd, rand_pos = 0\<rparr>"

text \<open>
  The \<^verbatim>\<open>while\<close> loop of \<^verbatim>\<open>get_victim_index\<close> (cache\_base.cpp:108-123).
  \<^verbatim>\<open>current_index < this->ways - 1\<close> compares as unsigned, with \<open>ways - 1\<close>
  computed in \<^verbatim>\<open>uint32_t\<close>.  \<^verbatim>\<open>current_index\<close> is a C++ \<^verbatim>\<open>int\<close>; it stays below
  \<open>2 * ways\<close>, so it does not overflow for any \<open>ways \<le> 2 ^ 30\<close> (the driver accepts
  cache sizes up to \<open>2 ^ 30\<close>), and is modelled as a natural number.
\<close>

function plru_walk :: "u32 \<Rightarrow> int list \<Rightarrow> nat \<Rightarrow> fault + nat" where
  "plru_walk nways set_meta_data current_index =
     (if current_index < unat (nways - 1) then
        (if length set_meta_data \<le> current_index then Inl OutOfRange
         else if set_meta_data ! current_index = 0
         then plru_walk nways set_meta_data (2 * current_index + 1)
         else plru_walk nways set_meta_data (2 * current_index + 2))
      else Inr current_index)"
  by pat_completeness auto
termination
  by (relation "measure (\<lambda>(nways, md, ci). unat (nways - 1) - ci)") auto

declare plru_walk.simps [simp del]

text \<open>
  \<^verbatim>\<open>CacheReplace::get_victim_index\<close>.  The result is the victim index together
  with the policy object after the call; the \<^verbatim>\<open>data\<close> argument is a by-value copy
  of the set's vector of block pointers and is not written.
\<close>

definition get_victim_index ::
  "CacheReplace \<Rightarrow> u32 \<Rightarrow> CacheBlock list \<Rightarrow> fault + (nat \<times> CacheReplace)" where
  "get_victim_index r set_index data =
     (case replacement_policy r of
        RANDOM \<Rightarrow>
          if ways r = 0 then Inl DivisionByZero
          else Inr (unat ((of_nat (rand_seq r (rand_pos r)) :: u32) mod ways r),
                    r\<lparr>rand_pos := Suc (rand_pos r)\<rparr>)
      | LRU \<Rightarrow> Inr (0, r)
      | PSEUDO_LRU \<Rightarrow>
          if length (meta_data r) \<le> unat set_index then Inl OutOfRange
          else (case plru_walk (ways r) (meta_data r ! unat set_index) 0 of
                  Inl e \<Rightarrow> Inl e
                | Inr current_index \<Rightarrow>
                    Inr (unat ((of_nat current_index :: u32) - ways r + 1), r)))"

text \<open>
  The \<^verbatim>\<open>do ... while (current_index > 0)\<close> loop of \<^verbatim>\<open>mark_accessed\<close>
  (cache\_base.cpp:159-163).  C++ integer division truncates towards zero, so
  \<open>(0 - 1) / 2\<close> is 0.
\<close>

function toggle_ancestors :: "int list \<Rightarrow> nat \<Rightarrow> fault + int list" where
  "toggle_ancestors md current_index =
     (let ci = (if current_index = 0 then 0 else (current_index - 1) div 2) in
      if length md \<le> ci then Inl OutOfRange
      else
        (let md' = md[ci := (if md ! ci \<noteq> 0 then 0 else 1)] in
         if 0 < ci then toggle_ancestors md' ci else Inr md'))"
  by pat_completeness auto
termination
  by (relation "measure (\<lambda>(md, ci). ci)") (auto split: if_splits)

declare toggle_ancestors.simps [simp del]

text \<open>
  \<^verbatim>\<open>CacheReplace::mark_accessed\<close>.  \<^verbatim>\<open>data\<close> is passed by reference: the
  result holds the set's vector after the call and the policy object after the call.
  Under LRU the accessed pointer is erased and pushed at the back; under pseudo-LRU the
  tag (converted from \<^verbatim>\<open>uint32_t\<close> to \<^verbatim>\<open>int\<close>) goes into the leaf cell and the
  loop above runs from the leaf.
\<close>

definition mark_accessed ::
  "CacheReplace \<Rightarrow> u32 \<Rightarrow> CacheBlock list \<Rightarrow> nat \<Rightarrow> fault + (CacheBlock list \<times> CacheReplace)"
  where
  "mark_accessed r set_index data block_index =
     (case replacement_policy r of
        RANDOM \<Rightarrow> Inr (data, r)
      | LRU \<Rightarrow>
          if length data \<le> block_index then Inl OutOfRange
          else Inr (take block_index data @ drop (Suc block_index) data @ [data ! block_index], r)
      | PSEUDO_LRU \<Rightarrow>
          if length data \<le> block_index then Inl OutOfRange
          else if length (meta_data r) \<le> unat set_index then Inl OutOfRange
          else
            (let md = meta_data r ! unat set_index;
                 leaf = unat ((of_nat block_index :: u32) + ways r - 1) in
             if length md \<le> leaf then Inl OutOfRange
             else
               (case toggle_ancestors (md[leaf := sint (tag (data ! block_index))]) leaf of
                  Inl e \<Rightarrow> Inl e
                | Inr md' \<Rightarrow>
                    Inr (data, r\<lparr>meta_data := (meta_data r)[unat set_index := md']\<rparr>))))"

section \<open>Access history (cache\_base.cpp)\<close>

text \<open>The \<^verbatim>\<open>for\<close> loop of \<^verbatim>\<open>Cache::is_accessed\<close> over the list \<^verbatim>\<open>accessed_blocks\<close>.\<close>

fun history_scan :: "u32 list \<Rightarrow> u32 \<Rightarrow> bool" where
  "history_scan [] block_address = False"
| "history_scan (x # rest) block_address =
     (if x = block_address then True else history_scan rest block_address)"

text \<open>
  \<^verbatim>\<open>Cache::is_accessed\<close>: the returned flag and the list \<^verbatim>\<open>accessed_blocks\<close>
  after the call.
\<close>

definition is_accessed :: "u32 list \<Rightarrow> u32 \<Rightarrow> bool \<times> u32 list" where
  "is_accessed accessed_blocks block_address =
     (if history_scan accessed_blocks block_address then (True, accessed_blocks)
      else (False, accessed_blocks @ [block_address]))"

text \<open>The history after a sequence of calls, each on the list the previous one left.\<close>

fun history_after :: "u32 list \<Rightarrow> u32 list \<Rightarrow> u32 list" where
  "history_after accessed_blocks [] = accessed_blocks"
| "history_after accessed_blocks (a # rest) =
     history_after (snd (is_accessed accessed_blocks a)) rest"

section \<open>The cache base class (cache\_base.cpp)\<close>

text \<open>
  \<^verbatim>\<open>class Cache\<close>.  The pointer \<^verbatim>\<open>cache_repl\<close> is assigned only by the two
  associative subclasses and never read by the direct-mapped one, so the policy object
  is a field of those two records.
\<close>

record Cache =
  cache_size :: u32
  block_size :: u32
  num_blocks :: u32
  line_bits :: u32
  index_bits :: u32
  access_info :: AccessInfo
  accessed_blocks :: "u32 list"

text \<open>
  The two \<^verbatim>\<open>for\<close> loops of the constructor look for the first \<open>i < 32\<close> with
  \<open>1 << i\<close> equal to the size and leave the field unassigned when there is none; the
  unassigned value is the parameter \<open>unset\<close>.
\<close>

definition find_shift :: "u32 \<Rightarrow> u32 \<Rightarrow> u32" where
  "find_shift x unset =
     (case find (\<lambda>i. (2 :: u32) ^ i = x) [0 ..< 32] of
        None \<Rightarrow> unset
      | Some i \<Rightarrow> of_nat i)"

definition Cache_new :: "u32 \<Rightarrow> u32 \<Rightarrow> u32 \<Rightarrow> fault + Cache" where
  "Cache_new csize bsize unset =
     (if bsize = 0 then Inl DivisionByZero
      else Inr \<lparr>cache_size = csize, block_size = bsize, num_blocks = csize div bsize,
                line_bits = find_shift bsize unset,
                index_bits = find_shift (csize div bsize) unset,
                access_info = AccessInfo_new, accessed_blocks = []\<rparr>)"

text \<open>
  The address decoding that every \<^verbatim>\<open>read\<close> and \<^verbatim>\<open>write\<close> starts with:
  \<^verbatim>\<open>address >> line_bits\<close> and \<^verbatim>\<open>address >> (line_bits + index_bits)\<close>.  The
  source's \<^verbatim>\<open>int\<close> locals hold the same 32 bits and are compared and used as
  unsigned.  (A shift by 32 or more is undefined in C++ and 0 here; the constructor
  yields \<open>line_bits + index_bits \<le> 31\<close> for power-of-two sizes.)
\<close>

definition block_address_of :: "'a Cache_scheme \<Rightarrow> u32 \<Rightarrow> u32" where
  "block_address_of c address = drop_bit (unat (line_bits c)) address"

definition addr_tag_of :: "'a Cache_scheme \<Rightarrow> u32 \<Rightarrow> u32" where
  "addr_tag_of c address = drop_bit (unat (line_bits c + index_bits c)) address"

section \<open>Counters and steps shared by the three organizations\<close>

text \<open>
  In each source file \<^verbatim>\<open>read\<close> and \<^verbatim>\<open>write\<close> are the same text up to which of
  \<^verbatim>\<open>read_access\<close>/\<^verbatim>\<open>write_access\<close> and \<^verbatim>\<open>read_misses\<close>/\<^verbatim>\<open>write_misses\<close>
  is incremented and whether the resolved block's \<^verbatim>\<open>dirty\<close> flag is set.  The model
  has one function per organization with the kind of access as a parameter;
  \<open>X_read\<close> and \<open>X_write\<close> are its two instances.
\<close>

datatype access_kind = ReadAccess | WriteAccess

definition count_access :: "access_kind \<Rightarrow> AccessInfo \<Rightarrow> AccessInfo" where
  "count_access kind info =
     (case kind of
        ReadAccess \<Rightarrow> info\<lparr>cache_access := cache_access info + 1,
                             read_access := read_access info + 1\<rparr>
      | WriteAccess \<Rightarrow> info\<lparr>cache_access := cache_access info + 1,
                              write_access := write_access info + 1\<rparr>)"

definition count_rw_miss :: "access_kind \<Rightarrow> AccessInfo \<Rightarrow> AccessInfo" where
  "count_rw_miss kind info =
     (case kind of
        ReadAccess \<Rightarrow> info\<lparr>read_misses := read_misses info + 1\<rparr>
      | WriteAccess \<Rightarrow> info\<lparr>write_misses := write_misses info + 1\<rparr>)"

definition count_compulsory :: "access_kind \<Rightarrow> AccessInfo \<Rightarrow> AccessInfo" where
  "count_compulsory kind info =
     count_rw_miss kind
       (info\<lparr>compulsory_misses := compulsory_misses info + 1,
             cache_misses := cache_misses info + 1\<rparr>)"

definition count_conflict :: "access_kind \<Rightarrow> AccessInfo \<Rightarrow> AccessInfo" where
  "count_conflict kind info =
     count_rw_miss kind
       (info\<lparr>conflict_misses := conflict_misses info + 1,
             cache_misses := cache_misses info + 1\<rparr>)"

definition count_capacity :: "access_kind \<Rightarrow> AccessInfo \<Rightarrow> AccessInfo" where
  "count_capacity kind info =
     count_rw_miss kind
       (info\<lparr>cache_misses := cache_misses info + 1,
             capacity_misses := capacity_misses info + 1\<rparr>)"

text \<open>The simulated write-back of a victim: \<^verbatim>\<open>if (block->dirty) { ... }\<close>.\<close>

definition write_back :: "AccessInfo \<Rightarrow> CacheBlock \<Rightarrow> AccessInfo \<times> CacheBlock" where
  "write_back info block =
     (if dirty block
      then (info\<lparr>dirty_blocks_evicted := dirty_blocks_evicted info + 1\<rparr>,
            block\<lparr>dirty := False\<rparr>)
      else (info, block))"

text \<open>The assignment \<^verbatim>\<open>block->dirty = true\<close> that only \<^verbatim>\<open>write\<close> makes.\<close>

definition set_dirty :: "access_kind \<Rightarrow> CacheBlock \<Rightarrow> CacheBlock" where
  "set_dirty kind block =
     (case kind of ReadAccess \<Rightarrow> block | WriteAccess \<Rightarrow> block\<lparr>dirty := True\<rparr>)"

section \<open>Direct-mapped cache (direct\_mapped.cpp)\<close>

record DirectMappedCache = Cache +
  dm_cache_blocks :: "CacheBlock list"

definition DirectMappedCache_new ::
  "u32 \<Rightarrow> u32 \<Rightarrow> u32 \<Rightarrow> (nat \<Rightarrow> u32) \<Rightarrow> fault + DirectMappedCache" where
  "DirectMappedCache_new csize bsize unset unset_tag =
     (case Cache_new csize bsize unset of
        Inl e \<Rightarrow> Inl e
      | Inr base \<Rightarrow>
          Inr (Cache.extend base
                 (DirectMappedCache.fields
                    (map (\<lambda>i. CacheBlock_new (unset_tag i)) [0 ..< unat (num_blocks base)]))))"

text \<open>
  \<^verbatim>\<open>DirectMappedCache::read\<close> and \<^verbatim>\<open>write\<close>: the block at
  \<^verbatim>\<open>block_address % num_blocks\<close> is filled when invalid, left when its tag
  matches, and replaced otherwise.
\<close>

definition DirectMappedCache_access ::
  "access_kind \<Rightarrow> DirectMappedCache \<Rightarrow> u32 \<Rightarrow> fault + DirectMappedCache" where
  "DirectMappedCache_access kind c address =
     (let info0 = count_access kind (access_info c);
          block_address = block_address_of c address
      in
      if num_blocks c = 0 then Inl DivisionByZero
      else
        (let index = unat (block_address mod num_blocks c);
             addr_tag = addr_tag_of c address;
             previously_accessed = fst (is_accessed (accessed_blocks c) block_address);
             history = snd (is_accessed (accessed_blocks c) block_address);
             info1 = (if \<not> previously_accessed then count_compulsory kind info0 else info0)
         in
         if length (dm_cache_blocks c) \<le> index then Inl OutOfRange
         else
           (let block = dm_cache_blocks c ! index in
            if \<not> valid block then
              Inr (c\<lparr>access_info := info1, accessed_blocks := history,
                     dm_cache_blocks := (dm_cache_blocks c)
                       [index := set_dirty kind (block\<lparr>valid := True, tag := addr_tag\<rparr>)]\<rparr>)
            else if tag block = addr_tag then
              Inr (c\<lparr>access_info := info1, accessed_blocks := history,
                     dm_cache_blocks := (dm_cache_blocks c)[index := set_dirty kind block]\<rparr>)
            else
              (let info2 = (if previously_accessed then count_conflict kind info1 else info1);
                   info3 = fst (write_back info2 block);
                   block1 = snd (write_back info2 block)
               in
               Inr (c\<lparr>access_info := info3, accessed_blocks := history,
                      dm_cache_blocks := (dm_cache_blocks c)
                        [index := set_dirty kind (block1\<lparr>tag := addr_tag\<rparr>)]\<rparr>)))))"

definition DirectMappedCache_read :: "DirectMappedCache \<Rightarrow> u32 \<Rightarrow> fault + DirectMappedCache" where
  "DirectMappedCache_read = DirectMappedCache_access ReadAccess"

definition DirectMappedCache_write :: "DirectMappedCache \<Rightarrow> u32 \<Rightarrow> fault + DirectMappedCache" where
  "DirectMappedCache_write = DirectMappedCache_access WriteAccess"

section \<open>The protocol on one set of an associative cache\<close>

text \<open>
  The search loop (fully\_associative.cpp:76-89 and 161-174, set\_associative.cpp:75-88
  and 149-162, the same text four times): it remembers the first block with
  \<^verbatim>\<open>valid == false\<close> in \<^verbatim>\<open>empty_block_index\<close> and stops at the first block with
  \<^verbatim>\<open>block->tag == addr_tag\<close>.  The tag comparison does not look at \<^verbatim>\<open>valid\<close>.
  The result is \<open>(empty_block_index, found_block_index)\<close>, with \<open>None\<close> for -1.
\<close>

fun scan_blocks :: "CacheBlock list \<Rightarrow> u32 \<Rightarrow> nat \<Rightarrow> nat option \<Rightarrow> nat option \<times> nat option" where
  "scan_blocks [] addr_tag i empty_block_index = (empty_block_index, None)"
| "scan_blocks (block # rest) addr_tag i empty_block_index =
     (let empty' = (if \<not> valid block \<and> empty_block_index = None then Some i
                    else empty_block_index)
      in if tag block = addr_tag then (empty', Some i)
         else scan_blocks rest addr_tag (Suc i) empty')"

text \<open>
  The end of \<^verbatim>\<open>read\<close>/\<^verbatim>\<open>write\<close>: \<^verbatim>\<open>write\<close> sets the dirty flag of the block at
  \<^verbatim>\<open>found_block_index\<close>, then both call \<^verbatim>\<open>mark_accessed\<close>.
\<close>

definition finish_access ::
  "access_kind \<Rightarrow> u32 \<Rightarrow> CacheBlock list \<Rightarrow> AccessInfo \<Rightarrow> CacheReplace \<Rightarrow> nat \<Rightarrow>
   fault + (CacheBlock list \<times> AccessInfo \<times> CacheReplace)" where
  "finish_access kind set_index data info repl found_block_index =
     (case mark_accessed repl set_index
             (data[found_block_index := set_dirty kind (data ! found_block_index)])
             found_block_index of
        Inl e \<Rightarrow> Inl e
      | Inr (data', repl') \<Rightarrow> Inr (data', info, repl'))"

text \<open>
  The body of \<^verbatim>\<open>read\<close>/\<^verbatim>\<open>write\<close> from the search loop on (fully\_associative.cpp:72-131
  and 157-214 on \<^verbatim>\<open>cache_blocks\<close> with set index 0; set\_associative.cpp:75-130 and
  149-213 on \<^verbatim>\<open>cache_blocks[set_index]\<close>): tag found, or eviction when no empty
  block was seen, or fill of the first empty block.
\<close>

definition set_access ::
  "access_kind \<Rightarrow> bool \<Rightarrow> u32 \<Rightarrow> u32 \<Rightarrow> CacheBlock list \<Rightarrow> AccessInfo \<Rightarrow> CacheReplace \<Rightarrow>
   fault + (CacheBlock list \<times> AccessInfo \<times> CacheReplace)" where
  "set_access kind previously_accessed addr_tag set_index data info repl =
     (case scan_blocks data addr_tag 0 None of
        (empty_block_index, Some found_block_index) \<Rightarrow>
          finish_access kind set_index data info repl found_block_index
      | (None, None) \<Rightarrow>
          (let info1 = (if previously_accessed then count_capacity kind info else info) in
           case get_victim_index repl set_index data of
             Inl e \<Rightarrow> Inl e
           | Inr (victim_index, repl1) \<Rightarrow>
               if length data \<le> victim_index then Inl OutOfRange
               else
                 (let info2 = fst (write_back info1 (data ! victim_index));
                      victim_block = snd (write_back info1 (data ! victim_index))
                  in finish_access kind set_index
                       (data[victim_index := victim_block\<lparr>tag := addr_tag\<rparr>])
                       info2 repl1 victim_index))
      | (Some empty_block_index, None) \<Rightarrow>
          finish_access kind set_index
            (data[empty_block_index :=
                    (data ! empty_block_index)\<lparr>valid := True, tag := addr_tag\<rparr>])
            info repl empty_block_index)"

section \<open>Fully associative cache (fully\_associative.cpp)\<close>

record FullyAssocCache = Cache +
  fa_cache_blocks :: "CacheBlock list"
  all_blocks_valid :: bool
  fa_cache_repl :: CacheReplace

definition FullyAssocCache_new ::
  "u32 \<Rightarrow> u32 \<Rightarrow> CacheReplacement_t \<Rightarrow> u32 \<Rightarrow> (nat \<Rightarrow> u32) \<Rightarrow> (nat \<Rightarrow> nat) \<Rightarrow>
   fault + FullyAssocCache" where
  "FullyAssocCache_new csize bsize policy unset unset_tag rnd =
     (case Cache_new csize bsize unset of
        Inl e \<Rightarrow> Inl e
      | Inr base \<Rightarrow>
          Inr (Cache.extend base
                 (FullyAssocCache.fields
                    (map (\<lambda>i. CacheBlock_new (unset_tag i)) [0 ..< unat (num_blocks base)])
                    False
                    (CacheReplace_new policy 1 (num_blocks base) rnd))))"

definition FullyAssocCache_access ::
  "access_kind \<Rightarrow> FullyAssocCache \<Rightarrow> u32 \<Rightarrow> fault + FullyAssocCache" where
  "FullyAssocCache_access kind c address =
     (let info0 = count_access kind (access_info c);
          addr_tag = addr_tag_of c address;
          block_address = block_address_of c address;
          previously_accessed = fst (is_accessed (accessed_blocks c) block_address);
          history = snd (is_accessed (accessed_blocks c) block_address);
          info1 = (if \<not> previously_accessed then count_compulsory kind info0 else info0)
      in
      case set_access kind previously_accessed addr_tag 0 (fa_cache_blocks c) info1
             (fa_cache_repl c) of
        Inl e \<Rightarrow> Inl e
      | Inr (data, info2, repl) \<Rightarrow>
          Inr (c\<lparr>access_info := info2, accessed_blocks := history,
                 fa_cache_blocks := data, fa_cache_repl := repl\<rparr>))"

definition FullyAssocCache_read :: "FullyAssocCache \<Rightarrow> u32 \<Rightarrow> fault + FullyAssocCache" where
  "FullyAssocCache_read = FullyAssocCache_access ReadAccess"

definition FullyAssocCache_write :: "FullyAssocCache \<Rightarrow> u32 \<Rightarrow> fault + FullyAssocCache" where
  "FullyAssocCache_write = FullyAssocCache_access WriteAccess"

section \<open>Set-associative cache (set\_associative.cpp)\<close>

record SetAssocCache = Cache +
  sa_cache_blocks :: "CacheBlock list list"
  num_sets :: u32
  num_ways :: u32
  sa_cache_repl :: CacheReplace

text \<open>
  The constructor, as it is meant: \<open>num_sets\<close> vectors of \<open>num_ways\<close> fresh blocks.
  (The source calls \<^verbatim>\<open>reserve\<close> on the outer vector and then indexes it, which only
  works because the reserved storage is still there; the model takes the vectors as
  built.)  The unset tag of block \<open>j\<close> of set \<open>i\<close> is \<open>unset_tag i j\<close>.
\<close>

definition SetAssocCache_new ::
  "u32 \<Rightarrow> u32 \<Rightarrow> u32 \<Rightarrow> CacheReplacement_t \<Rightarrow> u32 \<Rightarrow> (nat \<Rightarrow> nat \<Rightarrow> u32) \<Rightarrow> (nat \<Rightarrow> nat) \<Rightarrow>
   fault + SetAssocCache" where
  "SetAssocCache_new csize bsize nways policy unset unset_tag rnd =
     (case Cache_new csize bsize unset of
        Inl e \<Rightarrow> Inl e
      | Inr base \<Rightarrow>
          if nways = 0 then Inl DivisionByZero
          else
            (let nsets = num_blocks base div nways in
             Inr (Cache.extend base
                    (SetAssocCache.fields
                       (map (\<lambda>i. map (\<lambda>j. CacheBlock_new (unset_tag i j)) [0 ..< unat nways])
                          [0 ..< unat nsets])
                       nsets nways
                       (CacheReplace_new policy nsets nways rnd)))))"

definition SetAssocCache_access ::
  "access_kind \<Rightarrow> SetAssocCache \<Rightarrow> u32 \<Rightarrow> fault + SetAssocCache" where
  "SetAssocCache_access kind c address =
     (let info0 = count_access kind (access_info c);
          block_address = block_address_of c address
      in
      if num_sets c = 0 then Inl DivisionByZero
      else
        (let set_index = block_address mod num_sets c;
             addr_tag = addr_tag_of c address;
             previously_accessed = fst (is_accessed (accessed_blocks c) block_address);
             history = snd (is_accessed (accessed_blocks c) block_address);
             info1 = (if \<not> previously_accessed then count_compulsory kind info0 else info0)
         in
         if length (sa_cache_blocks c) \<le> unat set_index then Inl OutOfRange
         else
           (case set_access kind previously_accessed addr_tag set_index
                   (sa_cache_blocks c ! unat set_index) info1 (sa_cache_repl c) of
              Inl e \<Rightarrow> Inl e
            | Inr (data, info2, repl) \<Rightarrow>
                Inr (c\<lparr>access_info := info2, accessed_blocks := history,
                       sa_cache_blocks := (sa_cache_blocks c)[unat set_index := data],
                       sa_cache_repl := repl\<rparr>))))"

definition SetAssocCache_read :: "SetAssocCache \<Rightarrow> u32 \<Rightarrow> fault + SetAssocCache" where
  "SetAssocCache_read = SetAssocCache_access ReadAccess"

definition SetAssocCache_write :: "SetAssocCache \<Rightarrow> u32 \<Rightarrow> fault + SetAssocCache" where
  "SetAssocCache_write = SetAssocCache_access WriteAccess"

section \<open>Traces\<close>

text \<open>
  The driver's loop over the trace file: one \<^verbatim>\<open>read\<close> or \<^verbatim>\<open>write\<close> per line, in
  order, each on the cache the previous one left.
\<close>

fun run_trace ::
  "(access_kind \<Rightarrow> 'c \<Rightarrow> u32 \<Rightarrow> fault + 'c) \<Rightarrow> 'c \<Rightarrow> (access_kind \<times> u32) list \<Rightarrow> fault + 'c" where
  "run_trace access c [] = Inr c"
| "run_trace access c ((kind, address) # rest) =
     (case access kind c address of
        Inl e \<Rightarrow> Inl e
      | Inr c' \<Rightarrow> run_trace access c' rest)"

section \<open>The replacement policy as the specification words it\<close>

text \<open>
  The pseudo-LRU walk in the specification's words: start at tree index 0; while the
  index is an internal node (\<open>index < ways - 1\<close>) move to \<open>2 * i + 1\<close> if the stored
  bit is 0 and to \<open>2 * i + 2\<close> otherwise; return \<open>index - (ways - 1)\<close>.
\<close>

function spec_plru_leaf :: "nat \<Rightarrow> int list \<Rightarrow> nat \<Rightarrow> nat" where
  "spec_plru_leaf W bits i =
     (if i < W - 1
      then spec_plru_leaf W bits (if bits ! i = 0 then 2 * i + 1 else 2 * i + 2)
      else i)"
  by pat_completeness auto
termination
  by (relation "measure (\<lambda>(W, bits, i). (W - 1) - i)") auto

declare spec_plru_leaf.simps [simp del]

definition spec_choose_victim :: "nat \<Rightarrow> int list \<Rightarrow> nat" where
  "spec_choose_victim W bits = spec_plru_leaf W bits 0 - (W - 1)"

text \<open>
  The ancestors of a tree cell, from its parent up to the root (cell 0), and the
  metadata array the specification asks \<^verbatim>\<open>mark_accessed\<close> to leave: the tag in the
  leaf cell, every ancestor replaced by its logical negation, every other cell as it
  was.
\<close>

function tree_ancestors :: "nat \<Rightarrow> nat list" where
  "tree_ancestors i = (if i = 0 then [] else (i - 1) div 2 # tree_ancestors ((i - 1) div 2))"
  by pat_completeness auto
termination
  by (relation "measure (\<lambda>i. i)") auto

declare tree_ancestors.simps [simp del]

definition spec_plru_mark :: "int list \<Rightarrow> nat \<Rightarrow> int \<Rightarrow> int list" where
  "spec_plru_mark md leaf t =
     map (\<lambda>j. if j = leaf then t
              else if j \<in> set (tree_ancestors leaf) then (if md ! j \<noteq> 0 then 0 else 1)
              else md ! j)
       [0 ..< length md]"

section \<open>Predicates and inputs used in the statements\<close>

text \<open>The three miss categories add up to the miss counter.\<close>

definition miss_partition :: "AccessInfo \<Rightarrow> bool" where
  "miss_partition info \<longleftrightarrow>
     compulsory_misses info + capacity_misses info + conflict_misses info = cache_misses info"

text \<open>
  Concrete inputs: a generator that always returns 0, and two choices for the value
  an unassigned \<^verbatim>\<open>tag\<close> field holds in a fresh block (all bits clear, as in zeroed
  heap memory, and all bits set, which no address of the examples has as its tag).
\<close>

definition no_rand :: "nat \<Rightarrow> nat" where
  "no_rand n = 0"

definition unset_zero :: "nat \<Rightarrow> u32" where
  "unset_zero i = 0"

definition unset_ones :: "nat \<Rightarrow> u32" where
  "unset_ones i = 0xFFFFFFFF"

definition unset_ones2 :: "nat \<Rightarrow> nat \<Rightarrow> u32" where
  "unset_ones2 i j = 0xFFFFFFFF"

text \<open>
  The fully associative cache of two blocks that \<^verbatim>\<open>FullyAssocCache(128, 64, LRU)\<close>
  builds when the unassigned tag fields hold 0.
\<close>

definition fa_zeroed :: FullyAssocCache where
  "fa_zeroed =
     \<lparr>cache_size = 128, block_size = 64, num_blocks = 2, line_bits = 6, index_bits = 1,
      access_info = AccessInfo_new, accessed_blocks = [],
      fa_cache_blocks = [\<lparr>tag = 0, dirty = False, valid = False\<rparr>,
                         \<lparr>tag = 0, dirty = False, valid = False\<rparr>],
      all_blocks_valid = False,
      fa_cache_repl = \<lparr>repl_num_sets = 1, ways = 2, replacement_policy = LRU,
                        meta_data = [], rand_seq = no_rand, rand_pos = 0\<rparr>\<rparr>"

text \<open>
  The same cache when the unassigned tag fields hold \<open>0xFFFFFFFF\<close>
  (\<^verbatim>\<open>FullyAssocCache(128, 64, LRU)\<close>: two blocks, \<open>line_bits = 6\<close>,
  \<open>index_bits = 1\<close>).
\<close>

definition fa_ones :: FullyAssocCache where
  "fa_ones =
     \<lparr>cache_size = 128, block_size = 64, num_blocks = 2, line_bits = 6, index_bits = 1,
      access_info = AccessInfo_new, accessed_blocks = [],
      fa_cache_blocks = [\<lparr>tag = 0xFFFFFFFF, dirty = False, valid = False\<rparr>,
                         \<lparr>tag = 0xFFFFFFFF, dirty = False, valid = False\<rparr>],
      all_blocks_valid = False,
      fa_cache_repl = \<lparr>repl_num_sets = 1, ways = 2, replacement_policy = LRU,
                        meta_data = [], rand_seq = no_rand, rand_pos = 0\<rparr>\<rparr>"

text \<open>
  Well-formed caches: what the constructors build when the geometry is in range.  The
  set vectors have \<open>ways\<close> blocks each, there is at least one set and one way, and
  under pseudo-LRU every set has its \<open>2 * ways - 1\<close> metadata cells (\<open>ways \<le> 2 ^ 31\<close>
  keeps that number within \<^verbatim>\<open>uint32_t\<close>).
\<close>

definition repl_well_formed :: "CacheReplace \<Rightarrow> nat \<Rightarrow> bool" where
  "repl_well_formed r nsets \<longleftrightarrow>
     1 \<le> unat (ways r) \<and>
     (replacement_policy r = PSEUDO_LRU \<longrightarrow>
        unat (ways r) \<le> 2 ^ 31 \<and> length (meta_data r) = nsets \<and>
        (\<forall>md\<in>set (meta_data r). length md = 2 * unat (ways r) - 1))"

definition dm_well_formed :: "DirectMappedCache \<Rightarrow> bool" where
  "dm_well_formed c \<longleftrightarrow>
     num_blocks c \<noteq> 0 \<and> length (dm_cache_blocks c) = unat (num_blocks c)"

definition fa_well_formed :: "FullyAssocCache \<Rightarrow> bool" where
  "fa_well_formed c \<longleftrightarrow>
     repl_well_formed (fa_cache_repl c) 1 \<and>
     length (fa_cache_blocks c) = unat (ways (fa_cache_repl c))"

definition sa_well_formed :: "SetAssocCache \<Rightarrow> bool" where
  "sa_well_formed c \<longleftrightarrow>
     num_sets c \<noteq> 0 \<and> length (sa_cache_blocks c) = unat (num_sets c) \<and>
     (\<forall>s\<in>set (sa_cache_blocks c). length s = unat (ways (sa_cache_repl c))) \<and>
     repl_well_formed (sa_cache_repl c) (unat (num_sets c))"

text \<open>
  The fully associative cache of one block that
  \<^verbatim>\<open>FullyAssocCache(64, 64, PSEUDO_LRU)\<close> builds (unassigned tag field holding 0):
  one way, one metadata cell, the leaf, holding -1.
\<close>

definition fa_one_block :: FullyAssocCache where
  "fa_one_block =
     \<lparr>cache_size = 64, block_size = 64, num_blocks = 1, line_bits = 6, index_bits = 0,
      access_info = AccessInfo_new, accessed_blocks = [],
      fa_cache_blocks = [\<lparr>tag = 0, dirty = False, valid = False\<rparr>],
      all_blocks_valid = False,
      fa_cache_repl = \<lparr>repl_num_sets = 1, ways = 1, replacement_policy = PSEUDO_LRU,
                        meta_data = [[- 1]], rand_seq = no_rand, rand_pos = 0\<rparr>\<rparr>"

section \<open>Access history: properties\<close>

lemma history_scan_iff: "history_scan h a = (a \<in> set h)"
  by (induction h) auto

lemma set_history_after: "set (history_after h xs) = set h \<union> set xs"
  by (induction xs arbitrary: h) (auto simp: is_accessed_def history_scan_iff)

lemma distinct_history_after: "distinct h \<Longrightarrow> distinct (history_after h xs)"
  by (induction xs arbitrary: h) (auto simp: is_accessed_def history_scan_iff)

text \<open>
  Claim C8.  Starting from the empty history and after any sequence \<open>xs\<close> of earlier
  calls, \<^verbatim>\<open>is_accessed\<close> returns true exactly when the block address occurs in
  \<open>xs\<close>; on a first presentation it returns false and appends the address (one more
  entry), otherwise it leaves the list as it is.  The history holds each presented
  address once: its length is the number of distinct addresses presented.
\<close>

theorem is_accessed_history:
  "is_accessed (history_after [] xs) a =
     (a \<in> set xs, if a \<in> set xs then history_after [] xs else history_after [] xs @ [a])
   \<and> length (history_after [] xs) = card (set xs)"
proof -
  have "distinct (history_after [] xs)" by (rule distinct_history_after) simp
  then have "length (history_after [] xs) = card (set (history_after [] xs))"
    by (simp add: distinct_card)
  then show ?thesis
    by (simp add: is_accessed_def history_scan_iff set_history_after)
qed

theorem is_accessed_history_witness:
  "is_accessed (history_after [] [3, 5, 3]) 5 = (True, [3, 5]) \<and>
   is_accessed (history_after [] [3, 5, 3]) 7 = (False, [3, 5, 7])"
proof -
  have h: "history_after [] [3, 5, 3] = [3, 5]"
    by (simp add: is_accessed_def)
  show ?thesis
    using is_accessed_history [of "[3, 5, 3]" 5] is_accessed_history [of "[3, 5, 3]" 7]
    unfolding h by simp
qed

section \<open>Pseudo-LRU victim selection: properties\<close>

lemma unat_minus_1: "1 \<le> unat (w :: u32) \<Longrightarrow> unat (w - 1) = unat w - 1"
  by (metis One_nat_def unat_minus_one unat_eq_zero not_one_le_zero)

lemma plru_walk_reaches_leaf:
  "ci \<le> 2 * unat (w - 1) \<Longrightarrow> unat (w - 1) \<le> length md \<Longrightarrow>
   \<exists>k. plru_walk w md ci = Inr k \<and> unat (w - 1) \<le> k \<and> k \<le> 2 * unat (w - 1)"
proof (induction w md ci rule: plru_walk.induct)
  case (1 w md ci)
  show ?case
  proof (cases "ci < unat (w - 1)")
    case False
    with "1.prems" show ?thesis by (subst plru_walk.simps) simp
  next
    case True
    then have inr: "\<not> length md \<le> ci" using "1.prems" by simp
    show ?thesis
    proof (cases "md ! ci = 0")
      case z: True
      have "\<exists>k. plru_walk w md (2 * ci + 1) = Inr k \<and> unat (w - 1) \<le> k \<and> k \<le> 2 * unat (w - 1)"
        using True inr z "1.prems" by (intro "1.IH"(1)) auto
      then show ?thesis using True inr z by (subst plru_walk.simps) simp
    next
      case nz: False
      have "\<exists>k. plru_walk w md (2 * ci + 2) = Inr k \<and> unat (w - 1) \<le> k \<and> k \<le> 2 * unat (w - 1)"
        using True inr nz "1.prems" by (intro "1.IH"(2)) auto
      then show ?thesis using True inr nz by (subst plru_walk.simps) simp
    qed
  qed
qed

lemma victim_of_leaf:
  fixes w :: u32
  assumes "1 \<le> unat w" "unat (w - 1) \<le> k" "k \<le> 2 * unat (w - 1)"
  shows "unat ((of_nat k :: u32) - w + 1) = k - (unat w - 1)"
    and "unat ((of_nat k :: u32) - w + 1) < unat w"
proof -
  let ?m = "unat w - 1"
  have w1: "unat (w - 1) = ?m" using assms(1) by (rule unat_minus_1)
  have "w = of_nat ?m + 1" using assms(1) by simp
  moreover have "x - (y + 1) + 1 = x - y" for x y :: u32 by simp
  ultimately have "(of_nat k :: u32) - w + 1 = of_nat k - of_nat ?m" by metis
  also have "\<dots> = of_nat (k - ?m)" using assms(2) w1 by simp
  finally have e: "(of_nat k :: u32) - w + 1 = of_nat (k - ?m)" .
  have lt: "k - ?m < unat w" using assms w1 by simp
  have "unat w < 2 ^ 32" using unsigned_less [of w, where 'a = nat] by simp
  with lt have "k - ?m < 2 ^ 32" by simp
  then have "unat (of_nat (k - ?m) :: u32) = k - ?m" by (simp add: unat_of_nat)
  with e lt show "unat ((of_nat k :: u32) - w + 1) = k - (unat w - 1)"
    and "unat ((of_nat k :: u32) - w + 1) < unat w" by simp_all
qed

lemma unat_two_power: "j < 32 \<Longrightarrow> unat ((2 :: u32) ^ j) = 2 ^ j"
proof -
  assume j: "j < 32"
  have "(2 :: u32) ^ j = of_nat (2 ^ j)" by simp
  then have "unat ((2 :: u32) ^ j) = 2 ^ j mod 2 ^ 32"
    by (simp only: unat_of_nat) simp
  moreover have "(2 :: nat) ^ j < 2 ^ 32" using j by (intro power_strict_increasing) simp_all
  ultimately show ?thesis by simp
qed

lemma plru_victim_any_ways:
  assumes pol: "replacement_policy r = PSEUDO_LRU"
    and w: "1 \<le> unat (ways r)"
    and s: "unat set_index < length (meta_data r)"
    and len: "unat (ways r) - 1 \<le> length (meta_data r ! unat set_index)"
  shows "\<exists>v. get_victim_index r set_index data = Inr (v, r) \<and> v < unat (ways r)"
proof -
  have w1: "unat (ways r - 1) = unat (ways r) - 1" using w by (rule unat_minus_1)
  obtain k where k: "plru_walk (ways r) (meta_data r ! unat set_index) 0 = Inr k"
      "unat (ways r - 1) \<le> k" "k \<le> 2 * unat (ways r - 1)"
    using plru_walk_reaches_leaf [of 0 "ways r" "meta_data r ! unat set_index"] len w1 by auto
  from victim_of_leaf(2) [OF w k(2,3)] pol s k(1) show ?thesis
    by (simp add: get_victim_index_def)
qed

text \<open>
  Claim C10.  For a number of ways that is a power of two, at least 2, and any contents
  of the set's \<open>2 * ways - 1\<close> metadata cells, the walk of \<^verbatim>\<open>get_victim_index\<close>
  returns (it is a total function: the distance to \<open>ways - 1\<close> decreases at each
  step, which is its termination proof), without fault, and the way it returns is below
  \<open>ways\<close>.
\<close>

theorem plru_victim_terminates_in_range:
  assumes "replacement_policy r = PSEUDO_LRU"
    and "ways r = 2 ^ j" and "1 \<le> j" and "j < 32"
    and "unat set_index < length (meta_data r)"
    and "length (meta_data r ! unat set_index) = 2 * unat (ways r) - 1"
  shows "\<exists>v. get_victim_index r set_index data = Inr (v, r) \<and> v < unat (ways r)"
proof -
  have "unat (ways r) = 2 ^ j" using assms(2,4) by (simp add: unat_two_power)
  then have "1 \<le> unat (ways r)" by simp
  with assms show ?thesis by (intro plru_victim_any_ways) auto
qed

theorem plru_victim_terminates_in_range_witness:
  "\<exists>v. get_victim_index
          \<lparr>repl_num_sets = 1, ways = 4, replacement_policy = PSEUDO_LRU,
           meta_data = [[1, 0, 1, - 1, - 1, - 1, - 1]], rand_seq = no_rand, rand_pos = 0\<rparr> 0 [] =
        Inr (v, \<lparr>repl_num_sets = 1, ways = 4, replacement_policy = PSEUDO_LRU,
           meta_data = [[1, 0, 1, - 1, - 1, - 1, - 1]], rand_seq = no_rand, rand_pos = 0\<rparr>) \<and> v < 4"
  using plru_victim_terminates_in_range
    [of "\<lparr>repl_num_sets = 1, ways = 4, replacement_policy = PSEUDO_LRU,
           meta_data = [[1, 0, 1, - 1, - 1, - 1, - 1]], rand_seq = no_rand, rand_pos = 0\<rparr>" 2 0 "[]"]
  by simp

lemma plru_walk_is_spec_walk:
  "1 \<le> unat w \<Longrightarrow> unat w - 1 \<le> length md \<Longrightarrow>
   plru_walk w md ci = Inr (spec_plru_leaf (unat w) md ci)"
proof (induction w md ci rule: plru_walk.induct)
  case (1 w md ci)
  have w1: "unat (w - 1) = unat w - 1" using "1.prems"(1) by (rule unat_minus_1)
  show ?case
  proof (cases "ci < unat (w - 1)")
    case False
    then show ?thesis using w1
      by (subst plru_walk.simps, subst spec_plru_leaf.simps) simp
  next
    case True
    then have inr: "\<not> length md \<le> ci" using "1.prems" w1 by simp
    show ?thesis
    proof (cases "md ! ci = 0")
      case z: True
      have "plru_walk w md (2 * ci + 1) = Inr (spec_plru_leaf (unat w) md (2 * ci + 1))"
        using True inr z "1.prems" by (intro "1.IH"(1)) auto
      then show ?thesis using True inr z w1
        by (subst plru_walk.simps, subst spec_plru_leaf.simps) simp
    next
      case nz: False
      have "plru_walk w md (2 * ci + 2) = Inr (spec_plru_leaf (unat w) md (2 * ci + 2))"
        using True inr nz "1.prems" by (intro "1.IH"(2)) auto
      then show ?thesis using True inr nz w1
        by (subst plru_walk.simps, subst spec_plru_leaf.simps) simp
    qed
  qed
qed

text \<open>
  Claim C6.  Under pseudo-LRU \<^verbatim>\<open>get_victim_index\<close> returns the policy object
  unchanged (the set's blocks are a by-value argument) and the way that the
  specification's bit-directed walk reaches; so a second call, with no
  \<^verbatim>\<open>mark_accessed\<close> in between, returns the same way.
\<close>

theorem plru_choose_victim_pure:
  assumes pol: "replacement_policy r = PSEUDO_LRU"
    and w: "1 \<le> unat (ways r)"
    and s: "unat set_index < length (meta_data r)"
    and len: "unat (ways r) - 1 \<le> length (meta_data r ! unat set_index)"
  shows "get_victim_index r set_index data =
           Inr (spec_choose_victim (unat (ways r)) (meta_data r ! unat set_index), r)
         \<and> (\<forall>v r'. get_victim_index r set_index data = Inr (v, r') \<longrightarrow>
               r' = r \<and> get_victim_index r' set_index data = Inr (v, r'))"
proof -
  let ?md = "meta_data r ! unat set_index"
  have w1: "unat (ways r - 1) = unat (ways r) - 1" using w by (rule unat_minus_1)
  have walk: "plru_walk (ways r) ?md 0 = Inr (spec_plru_leaf (unat (ways r)) ?md 0)"
    using w len by (rule plru_walk_is_spec_walk)
  obtain k where k: "plru_walk (ways r) ?md 0 = Inr k"
      "unat (ways r - 1) \<le> k" "k \<le> 2 * unat (ways r - 1)"
    using plru_walk_reaches_leaf [of 0 "ways r" ?md] len w1 by auto
  from k(1) walk have keq: "k = spec_plru_leaf (unat (ways r)) ?md 0" by simp
  have "get_victim_index r set_index data =
           Inr (spec_choose_victim (unat (ways r)) ?md, r)"
    using victim_of_leaf(1) [OF w k(2,3)] pol s walk keq
    by (simp add: get_victim_index_def spec_choose_victim_def)
  then show ?thesis by simp
qed

theorem plru_choose_victim_pure_witness:
  "get_victim_index
     \<lparr>repl_num_sets = 1, ways = 4, replacement_policy = PSEUDO_LRU,
      meta_data = [[1, 0, 1, - 1, - 1, - 1, - 1]], rand_seq = no_rand, rand_pos = 0\<rparr> 0 [] =
   Inr (3, \<lparr>repl_num_sets = 1, ways = 4, replacement_policy = PSEUDO_LRU,
      meta_data = [[1, 0, 1, - 1, - 1, - 1, - 1]], rand_seq = no_rand, rand_pos = 0\<rparr>)"
  using plru_choose_victim_pure
    [of "\<lparr>repl_num_sets = 1, ways = 4, replacement_policy = PSEUDO_LRU,
           meta_data = [[1, 0, 1, - 1, - 1, - 1, - 1]], rand_seq = no_rand, rand_pos = 0\<rparr>" 0 "[]"]
  by (simp add: spec_choose_victim_def spec_plru_leaf.simps)

section \<open>Pseudo-LRU bookkeeping: properties\<close>

lemma tree_ancestors_less: "j \<in> set (tree_ancestors i) \<Longrightarrow> j < i"
proof (induction i arbitrary: j rule: tree_ancestors.induct)
  case (1 i)
  show ?case
  proof (cases "i = 0")
    case True
    with "1.prems" show ?thesis by (simp add: tree_ancestors.simps)
  next
    case False
    from "1.prems" False have "j = (i - 1) div 2 \<or> j \<in> set (tree_ancestors ((i - 1) div 2))"
      by (subst (asm) tree_ancestors.simps) auto
    then show ?thesis
    proof
      assume "j = (i - 1) div 2" with False show ?thesis by simp
    next
      assume "j \<in> set (tree_ancestors ((i - 1) div 2))"
      then have "j < (i - 1) div 2" using False by (rule "1.IH"[rotated])
      then show ?thesis by simp
    qed
  qed
qed

lemma toggle_ancestors_spec:
  "0 < i \<Longrightarrow> i < length md \<Longrightarrow>
   toggle_ancestors md i =
     Inr (map (\<lambda>j. if j \<in> set (tree_ancestors i) then (if md ! j \<noteq> 0 then 0 else 1) else md ! j)
            [0 ..< length md])"
proof (induction md i rule: toggle_ancestors.induct)
  case (1 md i)
  let ?ci = "(i - 1) div 2"
  let ?md' = "md[?ci := (if md ! ?ci \<noteq> 0 then 0 else 1)]"
  have ci: "?ci < i" "?ci < length md" using "1.prems" by auto
  have anc: "tree_ancestors i = ?ci # tree_ancestors ?ci"
    using "1.prems"(1) by (subst tree_ancestors.simps) simp
  show ?case
  proof (cases "0 < ?ci")
    case False
    then have z: "?ci = 0" by simp
    have "toggle_ancestors md i = Inr ?md'"
      using "1.prems" ci z by (subst toggle_ancestors.simps) (simp add: Let_def)
    moreover have "?md' = map (\<lambda>j. if j \<in> set (tree_ancestors i) then (if md ! j \<noteq> 0 then 0 else 1) else md ! j)
            [0 ..< length md]"
      using ci z by (intro nth_equalityI) (auto simp: anc tree_ancestors.simps [of 0] nth_list_update)
    ultimately show ?thesis by simp
  next
    case True
    have ih: "toggle_ancestors ?md' ?ci =
       Inr (map (\<lambda>j. if j \<in> set (tree_ancestors ?ci) then (if ?md' ! j \<noteq> 0 then 0 else 1) else ?md' ! j)
            [0 ..< length ?md'])"
      using "1.prems" ci True by (intro "1.IH") auto
    have "toggle_ancestors md i = toggle_ancestors ?md' ?ci"
      using "1.prems" ci True by (subst toggle_ancestors.simps) (simp add: Let_def)
    moreover have "map (\<lambda>j. if j \<in> set (tree_ancestors ?ci) then (if ?md' ! j \<noteq> 0 then 0 else 1) else ?md' ! j)
            [0 ..< length ?md'] =
          map (\<lambda>j. if j \<in> set (tree_ancestors i) then (if md ! j \<noteq> 0 then 0 else 1) else md ! j)
            [0 ..< length md]"
      using ci by (intro nth_equalityI) (auto simp: anc nth_list_update dest: tree_ancestors_less)
    ultimately show ?thesis using ih by simp
  qed
qed

lemma unat_leaf:
  fixes w :: u32
  assumes "1 \<le> unat w" "bi < unat w" "unat w \<le> 2 ^ 31"
  shows "unat ((of_nat bi :: u32) + w - 1) = bi + unat w - 1"
proof -
  have "w = of_nat (unat w - 1) + 1" using assms(1) by simp
  moreover have "x + (y + 1) - 1 = x + y" for x y :: u32 by simp
  ultimately have "(of_nat bi :: u32) + w - 1 = of_nat bi + of_nat (unat w - 1)" by metis
  then have e: "(of_nat bi :: u32) + w - 1 = of_nat (bi + (unat w - 1))" by simp
  have "bi + (unat w - 1) < 2 ^ 32" using assms by simp
  moreover have "unat (of_nat n :: u32) = n" if "n < 2 ^ 32" for n
    using that by (simp add: unat_of_nat)
  ultimately have "unat (of_nat (bi + (unat w - 1)) :: u32) = bi + (unat w - 1)"
    by blast
  with e have "unat ((of_nat bi :: u32) + w - 1) = bi + (unat w - 1)" by (simp only:)
  with assms(1) show ?thesis by simp
qed

lemma mark_accessed_plru_two_or_more_ways:
  assumes pol: "replacement_policy r = PSEUDO_LRU"
    and w: "2 \<le> unat (ways r)" "unat (ways r) \<le> 2 ^ 31"
    and bi: "block_index < unat (ways r)" "block_index < length data"
    and s: "unat set_index < length (meta_data r)"
    and len: "length (meta_data r ! unat set_index) = 2 * unat (ways r) - 1"
  shows "mark_accessed r set_index data block_index =
           Inr (data,
                r\<lparr>meta_data := (meta_data r)
                     [unat set_index :=
                        spec_plru_mark (meta_data r ! unat set_index)
                          (block_index + unat (ways r) - 1)
                          (sint (tag (data ! block_index)))]\<rparr>)"
proof -
  let ?md = "meta_data r ! unat set_index"
  let ?leaf = "block_index + unat (ways r) - 1"
  let ?t = "sint (tag (data ! block_index))"
  have leaf: "unat ((of_nat block_index :: u32) + ways r - 1) = ?leaf"
    using w bi(1) by (intro unat_leaf) auto
  have lr: "0 < ?leaf" "?leaf < length ?md" using w bi(1) len by auto
  have tg: "toggle_ancestors (?md[?leaf := ?t]) ?leaf =
     Inr (map (\<lambda>j. if j \<in> set (tree_ancestors ?leaf)
                   then (if (?md[?leaf := ?t]) ! j \<noteq> 0 then 0 else 1) else (?md[?leaf := ?t]) ! j)
            [0 ..< length (?md[?leaf := ?t])])"
    using lr by (intro toggle_ancestors_spec) auto
  have eq: "map (\<lambda>j. if j \<in> set (tree_ancestors ?leaf)
                   then (if (?md[?leaf := ?t]) ! j \<noteq> 0 then 0 else 1) else (?md[?leaf := ?t]) ! j)
            [0 ..< length (?md[?leaf := ?t])] = spec_plru_mark ?md ?leaf ?t"
    unfolding spec_plru_mark_def using lr
    by (intro nth_equalityI) (auto simp: nth_list_update dest: tree_ancestors_less)
  show ?thesis
    using pol bi(2) s lr(2) leaf tg eq
    by (simp add: mark_accessed_def Let_def)
qed

section \<open>Evaluating the model on concrete inputs\<close>

lemma find_shift_values:
  "find_shift 1 u = 0" "find_shift 2 u = 1" "find_shift 4 u = 2"  "find_shift 64 u = 6"
  by (simp_all add: find_shift_def upt_rec)

lemmas new_defs =
  DirectMappedCache_new_def FullyAssocCache_new_def SetAssocCache_new_def Cache_new_def
  CacheReplace_new_def CacheBlock_new_def AccessInfo_new_def find_shift_values
  Cache.defs DirectMappedCache.defs FullyAssocCache.defs SetAssocCache.defs
  no_rand_def unset_zero_def unset_ones_def unset_ones2_def upt_rec Let_def

lemmas access_defs =
  DirectMappedCache_access_def FullyAssocCache_access_def SetAssocCache_access_def
  DirectMappedCache_read_def DirectMappedCache_write_def
  FullyAssocCache_read_def FullyAssocCache_write_def
  SetAssocCache_read_def SetAssocCache_write_def
  set_access_def finish_access_def mark_accessed_def get_victim_index_def is_accessed_def
  count_access_def count_compulsory_def count_rw_miss_def count_capacity_def
  count_conflict_def write_back_def set_dirty_def block_address_of_def addr_tag_of_def Let_def

section \<open>Miss counters: properties\<close>

lemma miss_partition_count_access [simp]:
  "miss_partition (count_access kind info) = miss_partition info"
  by (cases kind) (simp_all add: miss_partition_def count_access_def)

lemma miss_partition_count_compulsory [simp]:
  "miss_partition (count_compulsory kind info) = miss_partition info"
  by (cases kind) (simp_all add: miss_partition_def count_compulsory_def count_rw_miss_def ac_simps)

lemma miss_partition_count_conflict [simp]:
  "miss_partition (count_conflict kind info) = miss_partition info"
  by (cases kind) (simp_all add: miss_partition_def count_conflict_def count_rw_miss_def ac_simps)

lemma miss_partition_count_capacity [simp]:
  "miss_partition (count_capacity kind info) = miss_partition info"
  by (cases kind) (simp_all add: miss_partition_def count_capacity_def count_rw_miss_def ac_simps)

lemma miss_partition_write_back [simp]:
  "miss_partition (fst (write_back info block)) = miss_partition info"
  by (simp add: miss_partition_def write_back_def)

lemma finish_access_info:
  "finish_access kind set_index data info repl i = Inr (data', info', repl') \<Longrightarrow> info' = info"
  by (auto simp: finish_access_def split: sum.splits)

lemma set_access_miss_partition:
  assumes "set_access kind prev t set_index data info repl = Inr (data', info', repl')"
    and "miss_partition info"
  shows "miss_partition info'"
  using assms
  by (auto simp: set_access_def Let_def split: prod.splits option.splits sum.splits if_splits
           dest!: finish_access_info)

lemma DirectMappedCache_access_miss_partition:
  assumes "DirectMappedCache_access kind c a = Inr c'" and "miss_partition (access_info c)"
  shows "miss_partition (access_info c')"
  using assms
  by (auto simp: DirectMappedCache_access_def Let_def split: if_splits)

lemma FullyAssocCache_access_miss_partition:
  assumes "FullyAssocCache_access kind c a = Inr c'" and "miss_partition (access_info c)"
  shows "miss_partition (access_info c')"
  using assms
  by (auto simp: FullyAssocCache_access_def Let_def split: if_splits sum.splits prod.splits
           dest!: set_access_miss_partition)

lemma SetAssocCache_access_miss_partition:
  assumes "SetAssocCache_access kind c a = Inr c'" and "miss_partition (access_info c)"
  shows "miss_partition (access_info c')"
  using assms
  by (auto simp: SetAssocCache_access_def Let_def split: if_splits sum.splits prod.splits
           dest!: set_access_miss_partition)

lemma run_trace_invariant:
  assumes step: "\<And>kind c a c'. access kind c a = Inr c' \<Longrightarrow> P c \<Longrightarrow> P c'"
  shows "run_trace access c t = Inr c' \<Longrightarrow> P c \<Longrightarrow> P c'"
proof (induction t arbitrary: c)
  case Nil
  then show ?case by simp
next
  case (Cons x t)
  obtain kind a where x: "x = (kind, a)" by (cases x)
  from Cons.prems(1) x obtain c1 where c1: "access kind c a = Inr c1" "run_trace access c1 t = Inr c'"
    by (auto split: sum.splits)
  from step [OF c1(1) Cons.prems(2)] have "P c1" .
  with Cons.IH c1(2) show ?case by blast
qed

lemma new_info:
  "DirectMappedCache_new cs bs u ut = Inr dm \<Longrightarrow> access_info dm = AccessInfo_new"
  "FullyAssocCache_new cs bs pol u ut rnd = Inr fa \<Longrightarrow> access_info fa = AccessInfo_new"
  "SetAssocCache_new cs bs nw pol u ut2 rnd = Inr sa \<Longrightarrow> access_info sa = AccessInfo_new"
  by (auto simp: DirectMappedCache_new_def FullyAssocCache_new_def SetAssocCache_new_def
        Cache_new_def Cache.defs DirectMappedCache.defs FullyAssocCache.defs SetAssocCache.defs Let_def
        split: if_splits sum.splits)

section \<open>Miss attribution on eviction\<close>

lemma scan_blocks_no_match_remembered:
  "\<forall>b\<in>set bs. tag b \<noteq> t \<Longrightarrow> scan_blocks bs t i (Some e) = (Some e, None)"
  by (induction bs arbitrary: i) auto

lemma scan_blocks_all_valid_no_match:
  "\<forall>b\<in>set bs. valid b \<and> tag b \<noteq> t \<Longrightarrow> scan_blocks bs t i None = (None, None)"
  by (induction bs arbitrary: i) auto

lemma write_back_counters [simp]:
  "cache_misses (fst (write_back info b)) = cache_misses info"
  "compulsory_misses (fst (write_back info b)) = compulsory_misses info"
  "capacity_misses (fst (write_back info b)) = capacity_misses info"
  "conflict_misses (fst (write_back info b)) = conflict_misses info"
  "read_misses (fst (write_back info b)) = read_misses info"
  "write_misses (fst (write_back info b)) = write_misses info"
  by (simp_all add: write_back_def)

lemma count_access_counters [simp]:
  "cache_misses (count_access kind info) = cache_misses info"
  "compulsory_misses (count_access kind info) = compulsory_misses info"
  "capacity_misses (count_access kind info) = capacity_misses info"
  "conflict_misses (count_access kind info) = conflict_misses info"
  by (cases kind; simp add: count_access_def)+

lemma count_compulsory_counters [simp]:
  "cache_misses (count_compulsory kind info) = cache_misses info + 1"
  "compulsory_misses (count_compulsory kind info) = compulsory_misses info + 1"
  "capacity_misses (count_compulsory kind info) = capacity_misses info"
  "conflict_misses (count_compulsory kind info) = conflict_misses info"
  by (cases kind; simp add: count_compulsory_def count_rw_miss_def)+

lemma count_capacity_counters [simp]:
  "cache_misses (count_capacity kind info) = cache_misses info + 1"
  "compulsory_misses (count_capacity kind info) = compulsory_misses info"
  "capacity_misses (count_capacity kind info) = capacity_misses info + 1"
  "conflict_misses (count_capacity kind info) = conflict_misses info"
  by (cases kind; simp add: count_capacity_def count_rw_miss_def)+

lemma count_conflict_counters [simp]:
  "cache_misses (count_conflict kind info) = cache_misses info + 1"
  "compulsory_misses (count_conflict kind info) = compulsory_misses info"
  "capacity_misses (count_conflict kind info) = capacity_misses info"
  "conflict_misses (count_conflict kind info) = conflict_misses info + 1"
  by (cases kind; simp add: count_conflict_def count_rw_miss_def)+

lemma set_access_eviction_info:
  assumes full: "\<forall>b\<in>set data. valid b \<and> tag b \<noteq> t"
    and run: "set_access kind prev t set_index data info repl = Inr (data', info', repl')"
  shows "\<exists>victim. info' = fst (write_back (if prev then count_capacity kind info else info) victim)"
  using run scan_blocks_all_valid_no_match [OF full, of 0]
  by (auto simp: set_access_def Let_def split: sum.splits if_splits dest!: finish_access_info)

text \<open>
  Claim C4.  An access that needs an eviction (direct-mapped: the block at the index
  is valid with another tag; associative: every block of the target set is valid and
  none has the tag) is counted as a conflict miss by the direct-mapped cache and as a
  capacity miss by the fully associative and set-associative caches when the block
  address is in the access history; when it is not, neither of these two counters
  moves and only the compulsory counter is incremented.
\<close>

theorem eviction_miss_attribution:
  "(DirectMappedCache_access kind dm a = Inr dm' \<and>
    valid (dm_cache_blocks dm ! unat (block_address_of dm a mod num_blocks dm)) \<and>
    tag (dm_cache_blocks dm ! unat (block_address_of dm a mod num_blocks dm)) \<noteq> addr_tag_of dm a
    \<longrightarrow>
      capacity_misses (access_info dm') = capacity_misses (access_info dm) \<and>
      (if block_address_of dm a \<in> set (accessed_blocks dm)
       then conflict_misses (access_info dm') = conflict_misses (access_info dm) + 1 \<and>
            compulsory_misses (access_info dm') = compulsory_misses (access_info dm)
       else conflict_misses (access_info dm') = conflict_misses (access_info dm) \<and>
            compulsory_misses (access_info dm') = compulsory_misses (access_info dm) + 1))
   \<and> (FullyAssocCache_access kind fa a = Inr fa' \<and>
    (\<forall>b\<in>set (fa_cache_blocks fa). valid b \<and> tag b \<noteq> addr_tag_of fa a)
    \<longrightarrow>
      conflict_misses (access_info fa') = conflict_misses (access_info fa) \<and>
      (if block_address_of fa a \<in> set (accessed_blocks fa)
       then capacity_misses (access_info fa') = capacity_misses (access_info fa) + 1 \<and>
            compulsory_misses (access_info fa') = compulsory_misses (access_info fa)
       else capacity_misses (access_info fa') = capacity_misses (access_info fa) \<and>
            compulsory_misses (access_info fa') = compulsory_misses (access_info fa) + 1))
   \<and> (SetAssocCache_access kind sa a = Inr sa' \<and>
    (\<forall>b\<in>set (sa_cache_blocks sa ! unat (block_address_of sa a mod num_sets sa)).
        valid b \<and> tag b \<noteq> addr_tag_of sa a)
    \<longrightarrow>
      conflict_misses (access_info sa') = conflict_misses (access_info sa) \<and>
      (if block_address_of sa a \<in> set (accessed_blocks sa)
       then capacity_misses (access_info sa') = capacity_misses (access_info sa) + 1 \<and>
            compulsory_misses (access_info sa') = compulsory_misses (access_info sa)
       else capacity_misses (access_info sa') = capacity_misses (access_info sa) \<and>
            compulsory_misses (access_info sa') = compulsory_misses (access_info sa) + 1))"
proof (intro conjI impI)
  assume "DirectMappedCache_access kind dm a = Inr dm' \<and>
    valid (dm_cache_blocks dm ! unat (block_address_of dm a mod num_blocks dm)) \<and>
    tag (dm_cache_blocks dm ! unat (block_address_of dm a mod num_blocks dm)) \<noteq> addr_tag_of dm a"
  then have "capacity_misses (access_info dm') = capacity_misses (access_info dm) \<and>
      (if block_address_of dm a \<in> set (accessed_blocks dm)
       then conflict_misses (access_info dm') = conflict_misses (access_info dm) + 1 \<and>
            compulsory_misses (access_info dm') = compulsory_misses (access_info dm)
       else conflict_misses (access_info dm') = conflict_misses (access_info dm) \<and>
            compulsory_misses (access_info dm') = compulsory_misses (access_info dm) + 1)"
    by (auto simp: DirectMappedCache_access_def Let_def is_accessed_def history_scan_iff
             split: if_splits)
  then show "capacity_misses (access_info dm') = capacity_misses (access_info dm)"
    and "if block_address_of dm a \<in> set (accessed_blocks dm)
       then conflict_misses (access_info dm') = conflict_misses (access_info dm) + 1 \<and>
            compulsory_misses (access_info dm') = compulsory_misses (access_info dm)
       else conflict_misses (access_info dm') = conflict_misses (access_info dm) \<and>
            compulsory_misses (access_info dm') = compulsory_misses (access_info dm) + 1"
    by simp_all
next
  assume h: "FullyAssocCache_access kind fa a = Inr fa' \<and>
    (\<forall>b\<in>set (fa_cache_blocks fa). valid b \<and> tag b \<noteq> addr_tag_of fa a)"
  then obtain data' info' repl' where
    sa: "set_access kind (fst (is_accessed (accessed_blocks fa) (block_address_of fa a)))
           (addr_tag_of fa a) 0 (fa_cache_blocks fa)
           (if \<not> fst (is_accessed (accessed_blocks fa) (block_address_of fa a))
            then count_compulsory kind (count_access kind (access_info fa))
            else count_access kind (access_info fa))
           (fa_cache_repl fa) = Inr (data', info', repl')"
    and i: "access_info fa' = info'"
    by (auto simp: FullyAssocCache_access_def Let_def split: sum.splits)
  from set_access_eviction_info [OF conjunct2 [OF h] sa] i
  have "conflict_misses (access_info fa') = conflict_misses (access_info fa) \<and>
      (if block_address_of fa a \<in> set (accessed_blocks fa)
       then capacity_misses (access_info fa') = capacity_misses (access_info fa) + 1 \<and>
            compulsory_misses (access_info fa') = compulsory_misses (access_info fa)
       else capacity_misses (access_info fa') = capacity_misses (access_info fa) \<and>
            compulsory_misses (access_info fa') = compulsory_misses (access_info fa) + 1)"
    by (auto simp: is_accessed_def history_scan_iff)
  then show "conflict_misses (access_info fa') = conflict_misses (access_info fa)"
    and "if block_address_of fa a \<in> set (accessed_blocks fa)
       then capacity_misses (access_info fa') = capacity_misses (access_info fa) + 1 \<and>
            compulsory_misses (access_info fa') = compulsory_misses (access_info fa)
       else capacity_misses (access_info fa') = capacity_misses (access_info fa) \<and>
            compulsory_misses (access_info fa') = compulsory_misses (access_info fa) + 1"
    by simp_all
next
  assume h: "SetAssocCache_access kind sa a = Inr sa' \<and>
    (\<forall>b\<in>set (sa_cache_blocks sa ! unat (block_address_of sa a mod num_sets sa)).
        valid b \<and> tag b \<noteq> addr_tag_of sa a)"
  then obtain data' info' repl' where
    sa: "set_access kind (fst (is_accessed (accessed_blocks sa) (block_address_of sa a)))
           (addr_tag_of sa a) (block_address_of sa a mod num_sets sa)
           (sa_cache_blocks sa ! unat (block_address_of sa a mod num_sets sa))
           (if \<not> fst (is_accessed (accessed_blocks sa) (block_address_of sa a))
            then count_compulsory kind (count_access kind (access_info sa))
            else count_access kind (access_info sa))
           (sa_cache_repl sa) = Inr (data', info', repl')"
    and i: "access_info sa' = info'"
    by (auto simp: SetAssocCache_access_def Let_def split: sum.splits if_splits)
  from set_access_eviction_info [OF conjunct2 [OF h] sa] i
  have "conflict_misses (access_info sa') = conflict_misses (access_info sa) \<and>
      (if block_address_of sa a \<in> set (accessed_blocks sa)
       then capacity_misses (access_info sa') = capacity_misses (access_info sa) + 1 \<and>
            compulsory_misses (access_info sa') = compulsory_misses (access_info sa)
       else capacity_misses (access_info sa') = capacity_misses (access_info sa) \<and>
            compulsory_misses (access_info sa') = compulsory_misses (access_info sa) + 1)"
    by (auto simp: is_accessed_def history_scan_iff)
  then show "conflict_misses (access_info sa') = conflict_misses (access_info sa)"
    and "if block_address_of sa a \<in> set (accessed_blocks sa)
       then capacity_misses (access_info sa') = capacity_misses (access_info sa) + 1 \<and>
            compulsory_misses (access_info sa') = compulsory_misses (access_info sa)
       else capacity_misses (access_info sa') = capacity_misses (access_info sa) \<and>
            compulsory_misses (access_info sa') = compulsory_misses (access_info sa) + 1"
    by simp_all
qed

theorem eviction_miss_attribution_witness:
  "(\<exists>dm dm1 dm2. DirectMappedCache_new 128 64 0 unset_ones = Inr dm \<and>
      run_trace DirectMappedCache_access dm [(ReadAccess, 0), (ReadAccess, 0x80)] = Inr dm1 \<and>
      DirectMappedCache_access ReadAccess dm1 0 = Inr dm2 \<and>
      block_address_of dm1 0 \<in> set (accessed_blocks dm1) \<and>
      conflict_misses (access_info dm1) = 0 \<and> conflict_misses (access_info dm2) = 1 \<and>
      capacity_misses (access_info dm2) = 0)
   \<and> (\<exists>fa fa1 fa2. FullyAssocCache_new 128 64 LRU 0 unset_ones no_rand = Inr fa \<and>
      run_trace FullyAssocCache_access fa
        [(ReadAccess, 0), (ReadAccess, 0x80), (ReadAccess, 0x100)] = Inr fa1 \<and>
      FullyAssocCache_access ReadAccess fa1 0 = Inr fa2 \<and>
      block_address_of fa1 0 \<in> set (accessed_blocks fa1) \<and>
      capacity_misses (access_info fa1) = 0 \<and> capacity_misses (access_info fa2) = 1 \<and>
      conflict_misses (access_info fa2) = 0)
   \<and> (\<exists>sa sa1 sa2. SetAssocCache_new 256 64 2 LRU 0 unset_ones2 no_rand = Inr sa \<and>
      run_trace SetAssocCache_access sa
        [(ReadAccess, 0), (ReadAccess, 0x100), (ReadAccess, 0x200)] = Inr sa1 \<and>
      SetAssocCache_access ReadAccess sa1 0 = Inr sa2 \<and>
      block_address_of sa1 0 \<in> set (accessed_blocks sa1) \<and>
      capacity_misses (access_info sa1) = 0 \<and> capacity_misses (access_info sa2) = 1 \<and>
      conflict_misses (access_info sa2) = 0)"
proof -
  obtain dm dm1 dm2 where dm: "DirectMappedCache_new 128 64 0 unset_ones = Inr dm"
      "run_trace DirectMappedCache_access dm [(ReadAccess, 0), (ReadAccess, 0x80)] = Inr dm1"
      "DirectMappedCache_access ReadAccess dm1 0 = Inr dm2"
      "valid (dm_cache_blocks dm1 ! unat (block_address_of dm1 0 mod num_blocks dm1))"
      "tag (dm_cache_blocks dm1 ! unat (block_address_of dm1 0 mod num_blocks dm1))
         \<noteq> addr_tag_of dm1 0"
      "block_address_of dm1 0 \<in> set (accessed_blocks dm1)"
      "conflict_misses (access_info dm1) = 0" "capacity_misses (access_info dm1) = 0"
    by (simp add: new_defs access_defs)
  obtain fa fa1 fa2 where fa: "FullyAssocCache_new 128 64 LRU 0 unset_ones no_rand = Inr fa"
      "run_trace FullyAssocCache_access fa
        [(ReadAccess, 0), (ReadAccess, 0x80), (ReadAccess, 0x100)] = Inr fa1"
      "FullyAssocCache_access ReadAccess fa1 0 = Inr fa2"
      "\<forall>b\<in>set (fa_cache_blocks fa1). valid b \<and> tag b \<noteq> addr_tag_of fa1 0"
      "block_address_of fa1 0 \<in> set (accessed_blocks fa1)"
      "conflict_misses (access_info fa1) = 0" "capacity_misses (access_info fa1) = 0"
    by (simp add: new_defs access_defs)
  obtain sa sa1 sa2 where sa: "SetAssocCache_new 256 64 2 LRU 0 unset_ones2 no_rand = Inr sa"
      "run_trace SetAssocCache_access sa
        [(ReadAccess, 0), (ReadAccess, 0x100), (ReadAccess, 0x200)] = Inr sa1"
      "SetAssocCache_access ReadAccess sa1 0 = Inr sa2"
      "\<forall>b\<in>set (sa_cache_blocks sa1 ! unat (block_address_of sa1 0 mod num_sets sa1)).
          valid b \<and> tag b \<noteq> addr_tag_of sa1 0"
      "block_address_of sa1 0 \<in> set (accessed_blocks sa1)"
      "conflict_misses (access_info sa1) = 0" "capacity_misses (access_info sa1) = 0"
    by (simp add: new_defs access_defs)
  from eviction_miss_attribution
    [where kind = ReadAccess and a = 0 and dm = dm1 and dm' = dm2 and fa = fa1 and fa' = fa2
       and sa = sa1 and sa' = sa2] dm(3-) fa(3-) sa(3-)
  have "conflict_misses (access_info dm2) = 1 \<and> capacity_misses (access_info dm2) = 0"
    and "capacity_misses (access_info fa2) = 1 \<and> conflict_misses (access_info fa2) = 0"
    and "capacity_misses (access_info sa2) = 1 \<and> conflict_misses (access_info sa2) = 0"
    by simp_all
  with dm fa sa show ?thesis by blast
qed

section \<open>The tag search and invalid blocks\<close>

text \<open>
  Claim C1.  The search loop of the associative caches compares \<^verbatim>\<open>block->tag\<close>
  with the address tag without looking at \<^verbatim>\<open>valid\<close> (the direct-mapped cache tests
  \<^verbatim>\<open>valid\<close> first).  In a fresh two-block fully associative cache whose unassigned
  tag fields hold 0, a read of address 0 (tag 0) stops at block 0, which is invalid,
  with \<^verbatim>\<open>found_block_index = 0\<close>: the access takes the hit path, and afterwards
  both blocks are still invalid.  The claim has the access go through the empty-slot
  fill, which would leave the block valid.
\<close>

theorem invalid_block_reported_as_hit:
  "FullyAssocCache_new 128 64 LRU 0 unset_zero no_rand = Inr fa_zeroed
   \<and> \<not> valid (fa_cache_blocks fa_zeroed ! 0)
   \<and> scan_blocks (fa_cache_blocks fa_zeroed) (addr_tag_of fa_zeroed 0) 0 None = (Some 0, Some 0)
   \<and> FullyAssocCache_read fa_zeroed 0 =
       Inr (fa_zeroed
              \<lparr>access_info := AccessInfo_new
                 \<lparr>cache_access := 1, read_access := 1, cache_misses := 1,
                  compulsory_misses := 1, read_misses := 1\<rparr>,
               accessed_blocks := [0]\<rparr>)"
  by (simp add: fa_zeroed_def new_defs access_defs)

text \<open>
  The direct-mapped cache, which tests \<^verbatim>\<open>valid\<close> before the tag, keeps every
  block within the three states: no access makes a valid block invalid, and none
  leaves a block dirty and invalid.
\<close>

lemma DirectMappedCache_block_states:
  assumes "DirectMappedCache_access kind c a = Inr c'"
  shows "\<forall>i<length (dm_cache_blocks c).
           valid (dm_cache_blocks c ! i) \<longrightarrow> valid (dm_cache_blocks c' ! i)"
    and "(\<forall>b\<in>set (dm_cache_blocks c). dirty b \<longrightarrow> valid b) \<Longrightarrow>
         (\<forall>b\<in>set (dm_cache_blocks c'). dirty b \<longrightarrow> valid b)"
proof -
  show "\<forall>i<length (dm_cache_blocks c).
           valid (dm_cache_blocks c ! i) \<longrightarrow> valid (dm_cache_blocks c' ! i)"
    using assms
    by (cases kind)
       (auto simp: DirectMappedCache_access_def Let_def set_dirty_def write_back_def
          nth_list_update split: if_splits)
  show "\<forall>b\<in>set (dm_cache_blocks c'). dirty b \<longrightarrow> valid b"
    if "\<forall>b\<in>set (dm_cache_blocks c). dirty b \<longrightarrow> valid b"
    using assms that
    by (cases kind)
       (auto simp: DirectMappedCache_access_def Let_def set_dirty_def write_back_def
          split: if_splits dest!: set_update_subset_insert [THEN subsetD])
qed

text \<open>
  Claim C2.  Same defect as in claim C1: in the same fresh cache a write to address 0
  matches the unassigned tag of the invalid block 0, takes the hit path and sets
  \<^verbatim>\<open>dirty\<close> on it without setting \<^verbatim>\<open>valid\<close>.  The block (moved to the back by
  LRU) is then invalid and dirty, a fourth state outside the three of the claim.
\<close>

theorem invalid_block_marked_dirty:
  "FullyAssocCache_new 128 64 LRU 0 unset_zero no_rand = Inr fa_zeroed
   \<and> FullyAssocCache_write fa_zeroed 0 =
       Inr (fa_zeroed
              \<lparr>access_info := AccessInfo_new
                 \<lparr>cache_access := 1, write_access := 1, cache_misses := 1,
                  compulsory_misses := 1, write_misses := 1\<rparr>,
               accessed_blocks := [0],
               fa_cache_blocks := [\<lparr>tag = 0, dirty = False, valid = False\<rparr>,
                                   \<lparr>tag = 0, dirty = True, valid = False\<rparr>]\<rparr>)"
  by (simp add: fa_zeroed_def new_defs access_defs)

section \<open>Pseudo-LRU bookkeeping with a single way\<close>

text \<open>
  Claim C7.  With two or more ways the code does what the claim says (lemma
  \<open>mark_accessed_plru_two_or_more_ways\<close>: the tag in the leaf cell, every ancestor
  negated, nothing else touched, the blocks as they were).  With one way, as in a fully
  associative cache of a single block, the leaf is the root and has no ancestor, but
  the \<^verbatim>\<open>do ... while\<close> body runs once with \<open>(0 - 1) / 2 = 0\<close> and negates the
  leaf cell that was just written: after the read of address \<open>0x140\<close> (tag 5) the
  cell holds 0, where the claim's array holds 5.
\<close>

theorem mark_accessed_plru_one_way:
  "FullyAssocCache_new 64 64 PSEUDO_LRU 0 unset_zero no_rand = Inr fa_one_block
   \<and> FullyAssocCache_read fa_one_block 0x140 =
       Inr (fa_one_block
              \<lparr>access_info := AccessInfo_new
                 \<lparr>cache_access := 1, read_access := 1, cache_misses := 1,
                  compulsory_misses := 1, read_misses := 1\<rparr>,
               accessed_blocks := [5],
               fa_cache_blocks := [\<lparr>tag = 5, dirty = False, valid = True\<rparr>],
               fa_cache_repl := (fa_cache_repl fa_one_block)\<lparr>meta_data := [[0]]\<rparr>\<rparr>)
   \<and> mark_accessed (fa_cache_repl fa_one_block) 0
         [\<lparr>tag = 5, dirty = False, valid = True\<rparr>] 0 =
       Inr ([\<lparr>tag = 5, dirty = False, valid = True\<rparr>],
            (fa_cache_repl fa_one_block)\<lparr>meta_data := [[0]]\<rparr>)
   \<and> spec_plru_mark [- 1] 0 (sint (5 :: u32)) = [5]"
  by (simp add: fa_one_block_def new_defs access_defs toggle_ancestors.simps
        spec_plru_mark_def)

section \<open>The search loop and one access to a set: properties\<close>

lemma scan_blocks_found:
  "scan_blocks bs t i e = (e', Some j) \<Longrightarrow> i \<le> j \<and> j - i < length bs \<and> tag (bs ! (j - i)) = t"
proof (induction bs arbitrary: i e)
  case Nil
  then show ?case by simp
next
  case (Cons b bs)
  show ?case
  proof (cases "tag b = t")
    case True
    with Cons.prems show ?thesis by (simp add: Let_def)
  next
    case False
    with Cons.prems obtain e1 where "scan_blocks bs t (Suc i) e1 = (e', Some j)"
      by (simp add: Let_def)
    from Cons.IH [OF this] have "Suc i \<le> j" "j - Suc i < length bs" "tag (bs ! (j - Suc i)) = t"
      by simp_all
    moreover from \<open>Suc i \<le> j\<close> have "j - i = Suc (j - Suc i)" by simp
    ultimately show ?thesis by simp
  qed
qed


lemma scan_blocks_not_found:
  "scan_blocks bs t i e = (e', None) \<Longrightarrow> \<forall>b\<in>set bs. tag b \<noteq> t"
  by (induction bs arbitrary: i e) (auto simp: Let_def split: if_splits)

lemma scan_blocks_empty:
  "scan_blocks bs t i e = (Some j, None) \<Longrightarrow>
   e = Some j \<or> (e = None \<and> i \<le> j \<and> j - i < length bs \<and> \<not> valid (bs ! (j - i)))"
proof (induction bs arbitrary: i e)
  case Nil
  then show ?case by simp
next
  case (Cons b bs)
  from Cons.prems have nt: "tag b \<noteq> t" by (auto simp: Let_def split: if_splits)
  show ?case
  proof (cases "\<not> valid b \<and> e = None")
    case True
    with Cons.prems nt have "scan_blocks bs t (Suc i) (Some i) = (Some j, None)"
      by (simp add: Let_def)
    from Cons.IH [OF this] have "j = i" by auto
    with True show ?thesis by simp
  next
    case False
    with Cons.prems nt have s: "scan_blocks bs t (Suc i) e = (Some j, None)"
      by (auto simp: Let_def)
    from Cons.IH [OF s] show ?thesis
    proof
      assume "e = Some j" then show ?thesis by simp
    next
      assume a: "e = None \<and> Suc i \<le> j \<and> j - Suc i < length bs \<and> \<not> valid (bs ! (j - Suc i))"
      then have "j - i = Suc (j - Suc i)" by arith
      with a show ?thesis by simp
    qed
  qed
qed






lemma set_dirty_read [simp]: "set_dirty ReadAccess b = b"
  by (simp add: set_dirty_def)




section \<open>Hits, read-back and the dirty flag\<close>

















section \<open>LRU in the fully associative cache\<close>

lemma run_trace_append:
  "run_trace access c (xs @ ys) =
     (case run_trace access c xs of Inl e \<Rightarrow> Inl e | Inr c' \<Rightarrow> run_trace access c' ys)"
  by (induction xs arbitrary: c) (auto split: sum.splits)

lemma set_access_lru_fill:
  assumes "replacement_policy repl = LRU" "\<not> valid b" "\<forall>x\<in>set (b # rest). tag x \<noteq> t"
  shows "set_access kind prev t s (b # rest) info repl =
           Inr (rest @ [set_dirty kind (b\<lparr>valid := True, tag := t\<rparr>)], info, repl)"
proof -
  have "scan_blocks (b # rest) t 0 None = (Some 0, None)"
    using assms(2,3) scan_blocks_no_match_remembered [of rest t "Suc 0" 0] by (simp add: Let_def)
  then show ?thesis using assms(1)
    by (simp add: set_access_def finish_access_def mark_accessed_def)
qed

lemma set_access_lru_evict:
  assumes "replacement_policy repl = LRU" "\<forall>x\<in>set (b # rest). valid x \<and> tag x \<noteq> t"
  shows "set_access kind prev t s (b # rest) info repl =
           Inr (rest @ [set_dirty kind
                          ((snd (write_back (if prev then count_capacity kind info else info) b))
                             \<lparr>tag := t\<rparr>)],
                fst (write_back (if prev then count_capacity kind info else info) b), repl)"
proof -
  have "scan_blocks (b # rest) t 0 None = (None, None)"
    using assms(2) by (intro scan_blocks_all_valid_no_match) auto
  then show ?thesis using assms(1)
    by (simp add: set_access_def finish_access_def mark_accessed_def get_victim_index_def Let_def)
qed

lemma set_dirty_fields [simp]:
  "tag (set_dirty kind b) = tag b" "valid (set_dirty kind b) = valid b"
  by (cases kind; simp add: set_dirty_def)+

lemma write_back_fields [simp]:
  "tag (snd (write_back info b)) = tag b" "valid (snd (write_back info b)) = valid b"
  by (simp_all add: write_back_def)

lemma FullyAssocCache_lru_fill:
  assumes lru: "replacement_policy (fa_cache_repl fa) = LRU"
    and blocks: "fa_cache_blocks fa = b # rest" "\<not> valid b"
    and nomatch: "\<forall>x\<in>set (b # rest). tag x \<noteq> addr_tag_of fa a"
  shows "\<exists>fa' nb. FullyAssocCache_access kind fa a = Inr fa' \<and>
           fa_cache_blocks fa' = rest @ [nb] \<and> tag nb = addr_tag_of fa a \<and> valid nb \<and>
           fa_cache_repl fa' = fa_cache_repl fa \<and>
           line_bits fa' = line_bits fa \<and> index_bits fa' = index_bits fa \<and>
           set (accessed_blocks fa') = insert (block_address_of fa a) (set (accessed_blocks fa))"
  using set_access_lru_fill [OF lru blocks(2) nomatch, of kind] blocks(1)
  by (auto simp: FullyAssocCache_access_def Let_def is_accessed_def history_scan_iff)

lemma FullyAssocCache_lru_evict:
  assumes lru: "replacement_policy (fa_cache_repl fa) = LRU"
    and blocks: "fa_cache_blocks fa = b # rest"
    and full: "\<forall>x\<in>set (b # rest). valid x \<and> tag x \<noteq> addr_tag_of fa a"
  shows "\<exists>fa' nb. FullyAssocCache_access kind fa a = Inr fa' \<and>
           fa_cache_blocks fa' = rest @ [nb] \<and> tag nb = addr_tag_of fa a \<and> valid nb \<and>
           fa_cache_repl fa' = fa_cache_repl fa \<and>
           line_bits fa' = line_bits fa \<and> index_bits fa' = index_bits fa \<and>
           set (accessed_blocks fa') = insert (block_address_of fa a) (set (accessed_blocks fa)) \<and>
           capacity_misses (access_info fa') =
             capacity_misses (access_info fa)
               + (if block_address_of fa a \<in> set (accessed_blocks fa) then 1 else 0)"
  using set_access_lru_evict [OF lru full, of kind] blocks(1) full
  by (auto simp: FullyAssocCache_access_def Let_def is_accessed_def history_scan_iff)

lemma addr_tag_of_cong:
  "line_bits c' = line_bits c \<Longrightarrow> index_bits c' = index_bits c \<Longrightarrow>
   addr_tag_of c' = addr_tag_of c"
  by (simp add: addr_tag_of_def fun_eq_iff)

lemma block_address_of_cong:
  "line_bits c' = line_bits c \<Longrightarrow> block_address_of c' = block_address_of c"
  by (simp add: block_address_of_def fun_eq_iff)

lemma FullyAssocCache_lru_fill_phase:
  assumes "replacement_policy (fa_cache_repl fa) = LRU"
    and "fa_cache_blocks fa = ivs @ filled"
    and "\<forall>b\<in>set ivs. \<not> valid b" and "\<forall>b\<in>set filled. valid b"
    and "length tr \<le> length ivs"
    and "distinct (map (addr_tag_of fa \<circ> snd) tr)"
    and "\<forall>x\<in>set tr. addr_tag_of fa (snd x) \<notin> tag ` set (ivs @ filled)"
  shows "\<exists>fa' nws. run_trace FullyAssocCache_access fa tr = Inr fa' \<and>
           fa_cache_blocks fa' = drop (length tr) ivs @ filled @ nws \<and>
           map tag nws = map (addr_tag_of fa \<circ> snd) tr \<and> (\<forall>b\<in>set nws. valid b) \<and>
           replacement_policy (fa_cache_repl fa') = LRU \<and>
           line_bits fa' = line_bits fa \<and> index_bits fa' = index_bits fa \<and>
           set (accessed_blocks fa') =
             set (accessed_blocks fa) \<union> (block_address_of fa \<circ> snd) ` set tr"
  using assms
proof (induction tr arbitrary: fa ivs filled)
  case Nil
  then show ?case by simp
next
  case (Cons x tr)
  obtain kind a where x: "x = (kind, a)" by (cases x)
  from Cons.prems(5) obtain b ivs' where ivs: "ivs = b # ivs'" by (cases ivs) auto
  let ?t = "addr_tag_of fa a"
  have nb: "\<not> valid b" using Cons.prems(3) ivs by simp
  have nm: "\<forall>y\<in>set (b # ivs' @ filled). tag y \<noteq> ?t"
    using Cons.prems(7) x ivs by force
  from FullyAssocCache_lru_fill [OF Cons.prems(1) _ nb nm, of kind] Cons.prems(2) ivs
  obtain fa1 n1 where fa1: "FullyAssocCache_access kind fa a = Inr fa1"
      "fa_cache_blocks fa1 = (ivs' @ filled) @ [n1]" "tag n1 = ?t" "valid n1"
      "fa_cache_repl fa1 = fa_cache_repl fa"
      "line_bits fa1 = line_bits fa" "index_bits fa1 = index_bits fa"
      "set (accessed_blocks fa1) = insert (block_address_of fa a) (set (accessed_blocks fa))"
    by auto
  have at: "addr_tag_of fa1 = addr_tag_of fa" using fa1(6,7) by (rule addr_tag_of_cong)
  have ba: "block_address_of fa1 = block_address_of fa" using fa1(6) by (rule block_address_of_cong)
  have p1: "replacement_policy (fa_cache_repl fa1) = LRU" using fa1(5) Cons.prems(1) by simp
  have p2: "fa_cache_blocks fa1 = ivs' @ (filled @ [n1])" using fa1(2) by simp
  have p3: "\<forall>b\<in>set ivs'. \<not> valid b" using Cons.prems(3) ivs by simp
  have p4: "\<forall>b\<in>set (filled @ [n1]). valid b" using Cons.prems(4) fa1(4) by simp
  have p5: "length tr \<le> length ivs'" using Cons.prems(5) ivs by simp
  have p6: "distinct (map (addr_tag_of fa1 \<circ> snd) tr)" using Cons.prems(6) at by (simp add: comp_def)
  have p7: "\<forall>y\<in>set tr. addr_tag_of fa1 (snd y) \<notin> tag ` set (ivs' @ (filled @ [n1]))"
  proof
    fix y assume y: "y \<in> set tr"
    have "addr_tag_of fa (snd y) \<notin> tag ` set (ivs @ filled)" using Cons.prems(7) y by simp
    moreover have "addr_tag_of fa (snd y) \<noteq> ?t" using Cons.prems(6) y x by force
    ultimately show "addr_tag_of fa1 (snd y) \<notin> tag ` set (ivs' @ (filled @ [n1]))"
      using at ivs fa1(3) by auto
  qed
  from Cons.IH [OF p1 p2 p3 p4 p5 p6 p7]
  obtain fa' nws where r: "run_trace FullyAssocCache_access fa1 tr = Inr fa'"
      "fa_cache_blocks fa' = drop (length tr) ivs' @ (filled @ [n1]) @ nws"
      "map tag nws = map (addr_tag_of fa1 \<circ> snd) tr" "\<forall>b\<in>set nws. valid b"
      "replacement_policy (fa_cache_repl fa') = LRU"
      "line_bits fa' = line_bits fa1" "index_bits fa' = index_bits fa1"
      "set (accessed_blocks fa') =
         set (accessed_blocks fa1) \<union> (block_address_of fa1 \<circ> snd) ` set tr"
    by blast
  have "run_trace FullyAssocCache_access fa (x # tr) = Inr fa'"
    using x fa1(1) r(1) by simp
  moreover have "fa_cache_blocks fa' = drop (length (x # tr)) ivs @ filled @ (n1 # nws)"
    using r(2) ivs by simp
  moreover have "map tag (n1 # nws) = map (addr_tag_of fa \<circ> snd) (x # tr)"
    using r(3) fa1(3) x at by simp
  moreover have "\<forall>b\<in>set (n1 # nws). valid b" using r(4) fa1(4) by simp
  moreover have "set (accessed_blocks fa') =
             set (accessed_blocks fa) \<union> (block_address_of fa \<circ> snd) ` set (x # tr)"
    using r(8) fa1(8) ba x by auto
  ultimately show ?case using r(5,6,7) fa1(6,7) by (intro exI [of _ fa'] exI [of _ "n1 # nws"]) simp
qed

lemma FullyAssocCache_new_fresh:
  assumes "FullyAssocCache_new cs bs pol u ut rnd = Inr fa"
  shows "fa_cache_blocks fa = map (\<lambda>i. CacheBlock_new (ut i)) [0 ..< unat (num_blocks fa)]"
    and "replacement_policy (fa_cache_repl fa) = pol"
  using assms
  by (auto simp: FullyAssocCache_new_def Cache_new_def Cache.defs FullyAssocCache.defs
        CacheReplace_new_def split: if_splits sum.splits)

text \<open>
  Claim C5, as stated, fails: distinct block addresses need not have distinct tags,
  because the tag drops the \<open>index_bits\<close> low bits of the block address in the fully
  associative cache too.  With two ways (\<open>line_bits = 6\<close>, \<open>index_bits = 1\<close>) the
  addresses \<open>0x0\<close>, \<open>0x40\<close>, \<open>0x80\<close> are three distinct blocks with tags 0, 0, 1:
  the second access finds the tag of the first, nothing is ever evicted, and the
  re-access of \<open>0x0\<close> finds its tag: no capacity miss is counted.
\<close>

theorem distinct_blocks_same_tag_no_eviction:
  "FullyAssocCache_new 128 64 LRU 0 unset_ones no_rand = Inr fa_ones
   \<and> map (block_address_of fa_ones) [0x0, 0x40, 0x80] = [0, 1, 2]
   \<and> run_trace FullyAssocCache_access fa_ones
        [(ReadAccess, 0x0), (ReadAccess, 0x40), (ReadAccess, 0x80)] =
       Inr (fa_ones
              \<lparr>access_info := AccessInfo_new
                 \<lparr>cache_access := 3, read_access := 3, cache_misses := 3,
                  compulsory_misses := 3, read_misses := 3\<rparr>,
               accessed_blocks := [0, 1, 2],
               fa_cache_blocks := [\<lparr>tag = 0, dirty = False, valid = True\<rparr>,
                                   \<lparr>tag = 1, dirty = False, valid = True\<rparr>]\<rparr>)
   \<and> FullyAssocCache_read
         (fa_ones
              \<lparr>access_info := AccessInfo_new
                 \<lparr>cache_access := 3, read_access := 3, cache_misses := 3,
                  compulsory_misses := 3, read_misses := 3\<rparr>,
               accessed_blocks := [0, 1, 2],
               fa_cache_blocks := [\<lparr>tag = 0, dirty = False, valid = True\<rparr>,
                                   \<lparr>tag = 1, dirty = False, valid = True\<rparr>]\<rparr>) 0x0 =
       Inr (fa_ones
              \<lparr>access_info := AccessInfo_new
                 \<lparr>cache_access := 4, read_access := 4, cache_misses := 3,
                  compulsory_misses := 3, read_misses := 3\<rparr>,
               accessed_blocks := [0, 1, 2],
               fa_cache_blocks := [\<lparr>tag = 1, dirty = False, valid = True\<rparr>,
                                   \<lparr>tag = 0, dirty = False, valid = True\<rparr>]\<rparr>)"
  by (simp add: fa_ones_def new_defs access_defs)

text \<open>
  Claim C5, amended: the \<open>W + 1\<close> addresses have pairwise distinct tags
  (\<open>address >> (line_bits + index_bits)\<close>), none of them the value an unassigned tag
  field of the fresh cache holds.  Then, from the freshly constructed LRU cache with
  \<open>W \<ge> 1\<close> ways, the \<open>W + 1\<close> accesses run and leave the tags of the 2nd to the
  last address, in that order, all valid (the first one was evicted); accessing the
  first address again succeeds, is counted as a capacity miss, and replaces the front
  block (the tag of the 2nd address, the least recently touched one), the new block
  going to the back.  Under LRU the victim is way 0 and \<^verbatim>\<open>mark_accessed\<close> moves
  the block it is given to the back.
\<close>

theorem lru_evicts_least_recently_touched:
  assumes new: "FullyAssocCache_new cs bs LRU u ut rnd = Inr fa"
    and W: "1 \<le> unat (num_blocks fa)"
    and len: "length tr = unat (num_blocks fa) + 1"
    and dist: "distinct (map (addr_tag_of fa \<circ> snd) tr)"
    and unset: "\<forall>x\<in>set tr. \<forall>i<unat (num_blocks fa). addr_tag_of fa (snd x) \<noteq> ut i"
  shows "\<exists>fa1 fa2. run_trace FullyAssocCache_access fa tr = Inr fa1 \<and>
           map tag (fa_cache_blocks fa1) = tl (map (addr_tag_of fa \<circ> snd) tr) \<and>
           (\<forall>b\<in>set (fa_cache_blocks fa1). valid b) \<and>
           FullyAssocCache_access kind fa1 (snd (hd tr)) = Inr fa2 \<and>
           capacity_misses (access_info fa2) = capacity_misses (access_info fa1) + 1 \<and>
           map tag (fa_cache_blocks fa2) =
             tl (tl (map (addr_tag_of fa \<circ> snd) tr)) @ [addr_tag_of fa (snd (hd tr))] \<and>
           get_victim_index (fa_cache_repl fa2) 0 (fa_cache_blocks fa2)
             = Inr (0, fa_cache_repl fa2) \<and>
           (\<forall>i<length (fa_cache_blocks fa2).
              mark_accessed (fa_cache_repl fa2) 0 (fa_cache_blocks fa2) i =
                Inr (take i (fa_cache_blocks fa2) @ drop (Suc i) (fa_cache_blocks fa2)
                       @ [fa_cache_blocks fa2 ! i], fa_cache_repl fa2))"
proof -
  let ?W = "unat (num_blocks fa)"
  let ?tg = "addr_tag_of fa \<circ> snd"
  let ?inv = "map (\<lambda>i. CacheBlock_new (ut i)) [0 ..< ?W]"
  note fresh = FullyAssocCache_new_fresh [OF new]
  obtain tr0 xl where tr: "tr = tr0 @ [xl]" "length tr0 = ?W"
    using len by (cases tr rule: rev_cases) auto
  obtain x1 tr0' where tr0: "tr0 = x1 # tr0'" using tr(2) W by (cases tr0) auto
  obtain kl al where xl: "xl = (kl, al)" by (cases xl)
  \<comment> \<open>the first \<open>W\<close> accesses fill the empty blocks\<close>
  have f1: "fa_cache_blocks fa = ?inv @ []" using fresh(1) by simp
  have f2: "\<forall>b\<in>set ?inv. \<not> valid b" by (simp add: CacheBlock_new_def)
  have f3: "\<forall>x\<in>set tr0. addr_tag_of fa (snd x) \<notin> tag ` set (?inv @ [])"
    using unset tr(1) by (fastforce simp: CacheBlock_new_def)
  have f4: "distinct (map ?tg tr0)" using dist tr(1) by simp
  from FullyAssocCache_lru_fill_phase [OF fresh(2) f1 f2 _ _ f4 f3] tr(2)
  obtain fam nws where m: "run_trace FullyAssocCache_access fa tr0 = Inr fam"
      "fa_cache_blocks fam = nws" "map tag nws = map ?tg tr0" "\<forall>b\<in>set nws. valid b"
      "replacement_policy (fa_cache_repl fam) = LRU"
      "line_bits fam = line_bits fa" "index_bits fam = index_bits fa"
      "set (accessed_blocks fam) = set (accessed_blocks fa) \<union> (block_address_of fa \<circ> snd) ` set tr0"
    by auto
  have atm: "addr_tag_of fam = addr_tag_of fa" using m(6,7) by (rule addr_tag_of_cong)
  have bam: "block_address_of fam = block_address_of fa" using m(6) by (rule block_address_of_cong)
  \<comment> \<open>the last access of the trace evicts the block filled first\<close>
  from m(3) tr0 obtain b0 rest0 where nws: "nws = b0 # rest0" "tag b0 = ?tg x1"
      "map tag rest0 = map ?tg tr0'"
    by (cases nws) auto
  have full1: "\<forall>x\<in>set (b0 # rest0). valid x \<and> tag x \<noteq> addr_tag_of fam al"
  proof
    fix x assume x: "x \<in> set (b0 # rest0)"
    then have "tag x \<in> set (map tag nws)" using nws(1) by auto
    then have "tag x \<in> set (map ?tg tr0)" using m(3) by simp
    moreover have "?tg xl \<notin> set (map ?tg tr0)" using dist tr(1) by simp
    ultimately have "tag x \<noteq> ?tg xl" by metis
    then have "tag x \<noteq> addr_tag_of fa al" using xl by simp
    with m(4) x nws(1) atm show "valid x \<and> tag x \<noteq> addr_tag_of fam al" by auto
  qed
  from FullyAssocCache_lru_evict [OF m(5) _ full1, of kl] m(2) nws(1)
  obtain fa1 n1 where fa1: "FullyAssocCache_access kl fam al = Inr fa1"
      "fa_cache_blocks fa1 = rest0 @ [n1]" "tag n1 = addr_tag_of fam al" "valid n1"
      "fa_cache_repl fa1 = fa_cache_repl fam"
      "line_bits fa1 = line_bits fam" "index_bits fa1 = index_bits fam"
      "set (accessed_blocks fa1) = insert (block_address_of fam al) (set (accessed_blocks fam))"
    by auto
  have at1: "addr_tag_of fa1 = addr_tag_of fa" using fa1(6,7) m(6,7) by (intro addr_tag_of_cong) simp_all
  have ba1: "block_address_of fa1 = block_address_of fa" using fa1(6) m(6) by (intro block_address_of_cong) simp
  have run1: "run_trace FullyAssocCache_access fa tr = Inr fa1"
    using tr(1) m(1) fa1(1) xl by (simp add: run_trace_append)
  have tags: "map ?tg tr = ?tg x1 # map ?tg tr0' @ [?tg xl]" using tr(1) tr0 by simp
  have tags1: "map tag (fa_cache_blocks fa1) = tl (map ?tg tr)"
    using fa1(2,3) nws(3) tags atm xl by simp
  have valid1: "\<forall>b\<in>set (fa_cache_blocks fa1). valid b"
    using fa1(2,4) m(4) nws(1) by auto
  \<comment> \<open>the first address again: its tag is gone and its block address is in the history\<close>
  have hd: "hd tr = x1" using tr(1) tr0 by simp
  obtain b1 rest1 where bl1: "fa_cache_blocks fa1 = b1 # rest1"
  proof (cases "fa_cache_blocks fa1")
    case Nil
    with fa1(2) show ?thesis by simp
  next
    case (Cons b1 rest1)
    then show ?thesis by (rule that)
  qed
  have "?tg x1 \<notin> set (tl (map ?tg tr))" using dist tags by auto
  then have full2: "\<forall>x\<in>set (b1 # rest1). valid x \<and> tag x \<noteq> addr_tag_of fa1 (snd x1)"
    using tags1 valid1 bl1 at1 by (metis comp_apply image_eqI list.set_map)
  have prev: "block_address_of fa1 (snd x1) \<in> set (accessed_blocks fa1)"
    using fa1(8) m(8) tr0 ba1 by auto
  have p5: "replacement_policy (fa_cache_repl fa1) = LRU" using fa1(5) m(5) by simp
  from FullyAssocCache_lru_evict [OF p5 bl1 full2, of kind] prev
  obtain fa2 n2 where fa2: "FullyAssocCache_access kind fa1 (snd x1) = Inr fa2"
      "fa_cache_blocks fa2 = rest1 @ [n2]" "tag n2 = addr_tag_of fa1 (snd x1)"
      "capacity_misses (access_info fa2) = capacity_misses (access_info fa1) + 1"
      "fa_cache_repl fa2 = fa_cache_repl fa1"
    by auto
  have p6: "replacement_policy (fa_cache_repl fa2) = LRU" using fa2(5) p5 by simp
  have victim: "get_victim_index (fa_cache_repl fa2) 0 (fa_cache_blocks fa2)
             = Inr (0, fa_cache_repl fa2)"
    using p6 by (simp add: get_victim_index_def)
  have mark: "\<forall>i<length (fa_cache_blocks fa2).
              mark_accessed (fa_cache_repl fa2) 0 (fa_cache_blocks fa2) i =
                Inr (take i (fa_cache_blocks fa2) @ drop (Suc i) (fa_cache_blocks fa2)
                       @ [fa_cache_blocks fa2 ! i], fa_cache_repl fa2)"
    using p6 by (simp add: mark_accessed_def)
  have "map tag (fa_cache_blocks fa2) = tl (tl (map ?tg tr)) @ [?tg x1]"
    using fa2(2,3) tags1 bl1 at1 by (metis comp_apply list.sel(3) list.simps(9) map_append list.map(1))
  with run1 tags1 valid1 fa2(1,4) hd victim mark show ?thesis by auto
qed

theorem lru_evicts_least_recently_touched_witness:
  "\<exists>fa1 fa2. run_trace FullyAssocCache_access fa_ones
       [(ReadAccess, 0x0), (WriteAccess, 0x80), (ReadAccess, 0x100)] = Inr fa1 \<and>
     map tag (fa_cache_blocks fa1) = [1, 2] \<and>
     FullyAssocCache_access ReadAccess fa1 0x0 = Inr fa2 \<and>
     capacity_misses (access_info fa2) = capacity_misses (access_info fa1) + 1 \<and>
     map tag (fa_cache_blocks fa2) = [2, 0]"
proof -
  have new: "FullyAssocCache_new 128 64 LRU 0 unset_ones no_rand = Inr fa_ones"
    by (simp add: fa_ones_def new_defs)
  have h: "1 \<le> unat (num_blocks fa_ones)"
      "length [(ReadAccess, 0x0 :: u32), (WriteAccess, 0x80), (ReadAccess, 0x100)]
         = unat (num_blocks fa_ones) + 1"
      "distinct (map (addr_tag_of fa_ones \<circ> snd)
         [(ReadAccess, 0x0), (WriteAccess, 0x80), (ReadAccess, 0x100)])"
      "\<forall>x\<in>set [(ReadAccess, 0x0 :: u32), (WriteAccess, 0x80), (ReadAccess, 0x100)].
         \<forall>i<unat (num_blocks fa_ones). addr_tag_of fa_ones (snd x) \<noteq> unset_ones i"
    by (simp_all add: fa_ones_def addr_tag_of_def unset_ones_def)
  from lru_evicts_least_recently_touched [OF new h, of ReadAccess]
  show ?thesis by (auto simp: fa_ones_def addr_tag_of_def)
qed

section \<open>Well-formed caches never fault\<close>

lemma toggle_ancestors_total:
  "i < length md \<Longrightarrow> \<exists>md'. toggle_ancestors md i = Inr md' \<and> length md' = length md"
proof (cases "i = 0")
  case True
  assume "i < length md"
  with True show ?thesis by (subst toggle_ancestors.simps) (simp add: Let_def)
next
  case False
  assume "i < length md"
  with False toggle_ancestors_spec [of i md] show ?thesis by simp
qed

lemma get_victim_index_total:
  assumes wf: "repl_well_formed r nsets" and s: "unat s < nsets"
  shows "\<exists>v r'. get_victim_index r s data = Inr (v, r') \<and> v < unat (ways r) \<and>
           repl_well_formed r' nsets \<and> ways r' = ways r"
proof (cases "replacement_policy r")
  case RANDOM
  from wf have nz: "ways r \<noteq> 0" by (auto simp: repl_well_formed_def)
  then have "unat ((of_nat (rand_seq r (rand_pos r)) :: u32) mod ways r) < unat (ways r)"
    by (simp add: unat_mod unat_gt_0)
  with RANDOM nz wf show ?thesis
    by (simp add: get_victim_index_def repl_well_formed_def)
next
  case LRU
  with wf show ?thesis by (simp add: get_victim_index_def repl_well_formed_def)
next
  case PSEUDO_LRU
  with wf s have a: "1 \<le> unat (ways r)" "unat s < length (meta_data r)"
    "unat (ways r) - 1 \<le> length (meta_data r ! unat s)"
    by (auto simp: repl_well_formed_def)
  from plru_victim_any_ways [OF PSEUDO_LRU a, of data] wf show ?thesis by auto
qed

lemma mark_accessed_total:
  assumes wf: "repl_well_formed r nsets" and s: "unat s < nsets"
    and len: "length data = unat (ways r)" and i: "i < length data"
  shows "\<exists>data' r'. mark_accessed r s data i = Inr (data', r') \<and> length data' = length data \<and>
           repl_well_formed r' nsets \<and> ways r' = ways r"
proof (cases "replacement_policy r")
  case RANDOM
  with wf show ?thesis by (simp add: mark_accessed_def)
next
  case LRU
  with wf i show ?thesis by (simp add: mark_accessed_def)
next
  case PSEUDO_LRU
  let ?md = "meta_data r ! unat s"
  let ?leaf = "i + unat (ways r) - 1"
  from PSEUDO_LRU wf s have a: "1 \<le> unat (ways r)" "unat (ways r) \<le> 2 ^ 31"
      "unat s < length (meta_data r)" "length ?md = 2 * unat (ways r) - 1"
      "length (meta_data r) = nsets"
      "\<forall>md\<in>set (meta_data r). length md = 2 * unat (ways r) - 1"
    by (auto simp: repl_well_formed_def)
  have leaf: "unat ((of_nat i :: u32) + ways r - 1) = ?leaf"
    using a(1,2) i len by (intro unat_leaf) auto
  have ll: "?leaf < length ?md" using a(1,4) i len by simp
  let ?md1 = "?md[?leaf := sint (tag (data ! i))]"
  from toggle_ancestors_total [of ?leaf ?md1] ll
  obtain md' where md': "toggle_ancestors ?md1 ?leaf = Inr md'" "length md' = length ?md"
    by auto
  have "\<forall>m\<in>set ((meta_data r)[unat s := md']). length m = 2 * unat (ways r) - 1"
    using a(4,6) md'(2) by (auto dest!: set_update_subset_insert [THEN subsetD])
  with PSEUDO_LRU a i leaf ll md' show ?thesis
    by (simp add: mark_accessed_def Let_def repl_well_formed_def)
qed

lemma scan_blocks_indices:
  "scan_blocks bs t 0 None = (e, f) \<Longrightarrow>
   (\<forall>j. f = Some j \<longrightarrow> j < length bs) \<and> (\<forall>j. f = None \<and> e = Some j \<longrightarrow> j < length bs)"
  using scan_blocks_found [of bs t 0 None e] scan_blocks_empty [of bs t 0 None]
  by fastforce

lemma finish_access_total:
  assumes wf: "repl_well_formed r nsets" and s: "unat s < nsets"
    and len: "length data = unat (ways r)" and i: "i < length data"
  shows "\<exists>data' r'. finish_access kind s data info r i = Inr (data', info, r') \<and>
           length data' = length data \<and> repl_well_formed r' nsets \<and> ways r' = ways r"
proof -
  let ?d = "data[i := set_dirty kind (data ! i)]"
  from mark_accessed_total [OF wf s, of ?d i] len i
  obtain data' r' where "mark_accessed r s ?d i = Inr (data', r')" "length data' = length ?d"
    "repl_well_formed r' nsets" "ways r' = ways r" by auto
  then show ?thesis by (simp add: finish_access_def)
qed

lemma set_access_total:
  assumes wf: "repl_well_formed r nsets" and s: "unat s < nsets"
    and len: "length data = unat (ways r)"
  shows "\<exists>data' info' r'. set_access kind prev t s data info r = Inr (data', info', r') \<and>
           length data' = length data \<and> repl_well_formed r' nsets \<and> ways r' = ways r"
proof -
  obtain e f where sc: "scan_blocks data t 0 None = (e, f)" by (cases "scan_blocks data t 0 None")
  note idx = scan_blocks_indices [OF sc]
  show ?thesis
  proof (cases f)
    case (Some j)
    with idx have "j < length data" by simp
    from finish_access_total [OF wf s len this, of kind info] sc Some show ?thesis
      by (auto simp: set_access_def split: option.splits)
  next
    case None
    show ?thesis
    proof (cases e)
      case (Some j)
      with idx None have j: "j < length data" by simp
      let ?d = "data[j := (data ! j)\<lparr>valid := True, tag := t\<rparr>]"
      from finish_access_total [OF wf s, of ?d j kind info] len j sc None Some show ?thesis
        by (auto simp: set_access_def)
    next
      case n: None
      let ?info1 = "if prev then count_capacity kind info else info"
      from get_victim_index_total [OF wf s, of data]
      obtain v r1 where v: "get_victim_index r s data = Inr (v, r1)" "v < unat (ways r)"
        "repl_well_formed r1 nsets" "ways r1 = ways r" by auto
      let ?d = "data[v := (snd (write_back ?info1 (data ! v)))\<lparr>tag := t\<rparr>]"
      from finish_access_total [OF v(3) s, of ?d v kind "fst (write_back ?info1 (data ! v))"]
        len v(2,4)
      obtain data' r' where
        "finish_access kind s ?d (fst (write_back ?info1 (data ! v))) r1 v
           = Inr (data', fst (write_back ?info1 (data ! v)), r')"
        "length data' = length data" "repl_well_formed r' nsets" "ways r' = ways r"
        by auto
      with sc None n v len show ?thesis
        by (auto simp: set_access_def Let_def)
    qed
  qed
qed

lemma DirectMappedCache_access_total:
  assumes "dm_well_formed c"
  shows "\<exists>c'. DirectMappedCache_access kind c a = Inr c' \<and> dm_well_formed c'"
proof -
  from assms have nz: "num_blocks c \<noteq> 0" and len: "length (dm_cache_blocks c) = unat (num_blocks c)"
    by (simp_all add: dm_well_formed_def)
  from nz have "unat (block_address_of c a mod num_blocks c) < unat (num_blocks c)"
    by (simp add: unat_mod unat_gt_0)
  with nz len show ?thesis
    by (auto simp: DirectMappedCache_access_def Let_def dm_well_formed_def)
qed

lemma FullyAssocCache_access_total:
  assumes "fa_well_formed c"
  shows "\<exists>c'. FullyAssocCache_access kind c a = Inr c' \<and> fa_well_formed c'"
proof -
  from assms have wf: "repl_well_formed (fa_cache_repl c) 1"
    and len: "length (fa_cache_blocks c) = unat (ways (fa_cache_repl c))"
    by (simp_all add: fa_well_formed_def)
  have s: "unat (0 :: u32) < 1" by simp
  let ?prev = "fst (is_accessed (accessed_blocks c) (block_address_of c a))"
  let ?info = "if \<not> ?prev then count_compulsory kind (count_access kind (access_info c))
               else count_access kind (access_info c)"
  from set_access_total [OF wf s len, of kind ?prev "addr_tag_of c a" ?info]
  obtain data' info' r' where r:
    "set_access kind ?prev (addr_tag_of c a) 0 (fa_cache_blocks c) ?info (fa_cache_repl c)
       = Inr (data', info', r')"
    "length data' = length (fa_cache_blocks c)"
    "repl_well_formed r' 1" "ways r' = ways (fa_cache_repl c)"
    by blast
  with len show ?thesis
    by (auto simp: FullyAssocCache_access_def Let_def fa_well_formed_def)
qed

lemma SetAssocCache_access_total:
  assumes "sa_well_formed c"
  shows "\<exists>c'. SetAssocCache_access kind c a = Inr c' \<and> sa_well_formed c'"
proof -
  let ?s = "block_address_of c a mod num_sets c"
  from assms have nz: "num_sets c \<noteq> 0"
    and len: "length (sa_cache_blocks c) = unat (num_sets c)"
    and sets: "\<forall>s\<in>set (sa_cache_blocks c). length s = unat (ways (sa_cache_repl c))"
    and wf: "repl_well_formed (sa_cache_repl c) (unat (num_sets c))"
    by (simp_all add: sa_well_formed_def)
  from nz have s: "unat ?s < unat (num_sets c)" by (simp add: unat_mod unat_gt_0)
  with len sets have l: "length (sa_cache_blocks c ! unat ?s) = unat (ways (sa_cache_repl c))"
    by simp
  let ?prev = "fst (is_accessed (accessed_blocks c) (block_address_of c a))"
  let ?info = "if \<not> ?prev then count_compulsory kind (count_access kind (access_info c))
               else count_access kind (access_info c)"
  from set_access_total [OF wf s l, of kind ?prev "addr_tag_of c a" ?info]
  obtain data' info' r' where r:
    "set_access kind ?prev (addr_tag_of c a) ?s (sa_cache_blocks c ! unat ?s) ?info (sa_cache_repl c)
       = Inr (data', info', r')"
    "length data' = length (sa_cache_blocks c ! unat ?s)"
    "repl_well_formed r' (unat (num_sets c))" "ways r' = ways (sa_cache_repl c)"
    by blast
  have "\<forall>x\<in>set ((sa_cache_blocks c)[unat ?s := data']). length x = unat (ways r')"
    using sets r(2,4) l by (auto dest!: set_update_subset_insert [THEN subsetD])
  with r nz s len show ?thesis
    by (auto simp: SetAssocCache_access_def Let_def sa_well_formed_def)
qed

lemma run_trace_total:
  assumes step: "\<And>kind c a. P c \<Longrightarrow> \<exists>c'. access kind c a = Inr c' \<and> P c'"
  shows "P c \<Longrightarrow> \<exists>c'. run_trace access c t = Inr c' \<and> P c'"
proof (induction t arbitrary: c)
  case Nil
  then show ?case by simp
next
  case (Cons x t)
  obtain kind a where x: "x = (kind, a)" by (cases x)
  from step [OF Cons.prems, of kind a] obtain c1 where c1: "access kind c a = Inr c1" "P c1"
    by blast
  from Cons.IH [OF c1(2)] c1(1) x show ?case by simp
qed

lemma unat_twice_minus_1:
  fixes n :: u32
  assumes "1 \<le> unat n" "unat n \<le> 2 ^ 31"
  shows "unat (2 * n - 1) = 2 * unat n - 1"
proof -
  have "n = of_nat (unat n - 1) + 1" using assms(1) by simp
  moreover have "2 * (y + 1) - 1 = 2 * y + 1" for y :: u32 by simp
  ultimately have "2 * n - 1 = 2 * of_nat (unat n - 1) + 1" by metis
  also have "\<dots> = of_nat (2 * (unat n - 1) + 1)" by simp
  finally have e: "2 * n - 1 = of_nat (2 * (unat n - 1) + 1)" .
  have "2 * (unat n - 1) + 1 < 2 ^ 32" using assms by simp
  moreover have "unat (of_nat k :: u32) = k" if "k < 2 ^ 32" for k
    using that by (simp add: unat_of_nat)
  ultimately have "unat (of_nat (2 * (unat n - 1) + 1) :: u32) = 2 * (unat n - 1) + 1" by blast
  with e have "unat (2 * n - 1) = 2 * (unat n - 1) + 1" by (simp only:)
  with assms(1) show ?thesis by simp
qed

lemma CacheReplace_new_well_formed:
  assumes "1 \<le> unat nways" "pol = PSEUDO_LRU \<longrightarrow> unat nways \<le> 2 ^ 31"
  shows "repl_well_formed (CacheReplace_new pol nsets nways rnd) (unat nsets)"
proof (cases "pol = PSEUDO_LRU")
  case False
  with assms(1) show ?thesis by (simp add: repl_well_formed_def CacheReplace_new_def)
next
  case True
  with assms have le: "unat nways \<le> 2 ^ 31" by simp
  have a: "unat (nways - 1) = unat nways - 1" using assms(1) by (rule unat_minus_1)
  have b: "unat (2 * nways - 1) = 2 * unat nways - 1" using assms(1) le by (rule unat_twice_minus_1)
  from True assms(1) le a b show ?thesis
    by (auto simp: repl_well_formed_def CacheReplace_new_def)
qed

lemma DirectMappedCache_new_well_formed:
  assumes "DirectMappedCache_new cs bs u ut = Inr c" "cs div bs \<noteq> 0"
  shows "dm_well_formed c"
  using assms
  by (auto simp: DirectMappedCache_new_def Cache_new_def Cache.defs DirectMappedCache.defs
        dm_well_formed_def split: if_splits)

lemma FullyAssocCache_new_well_formed:
  assumes "FullyAssocCache_new cs bs pol u ut rnd = Inr c" "cs div bs \<noteq> 0"
    and "pol = PSEUDO_LRU \<longrightarrow> unat (cs div bs) \<le> 2 ^ 31"
  shows "fa_well_formed c"
proof -
  from assms(2) have "1 \<le> unat (cs div bs)" by (simp add: unat_gt_0 Suc_le_eq)
  from CacheReplace_new_well_formed [OF this assms(3), of 1 rnd] assms(1)
  show ?thesis
    by (auto simp: FullyAssocCache_new_def Cache_new_def Cache.defs FullyAssocCache.defs
          fa_well_formed_def CacheReplace_new_def split: if_splits)
qed

lemma SetAssocCache_new_well_formed:
  assumes "SetAssocCache_new cs bs nw pol u ut rnd = Inr c" "(cs div bs) div nw \<noteq> 0"
    and "pol = PSEUDO_LRU \<longrightarrow> unat nw \<le> 2 ^ 31"
  shows "sa_well_formed c"
proof -
  from assms(1) have nz: "nw \<noteq> 0" by (auto simp: SetAssocCache_new_def split: sum.splits if_splits)
  then have "1 \<le> unat nw" by (simp add: unat_gt_0 Suc_le_eq)
  from CacheReplace_new_well_formed [OF this assms(3), of "(cs div bs) div nw" rnd] assms(1,2)
  show ?thesis
    by (auto simp: SetAssocCache_new_def Cache_new_def Cache.defs SetAssocCache.defs
          sa_well_formed_def CacheReplace_new_def Let_def split: if_splits)
qed

lemma constructed_caches_never_fault:
  "(DirectMappedCache_new cs1 bs1 u1 ut1 = Inr dm \<and> cs1 div bs1 \<noteq> 0
      \<longrightarrow> (\<exists>dm'. run_trace DirectMappedCache_access dm t1 = Inr dm'))
   \<and> (FullyAssocCache_new cs2 bs2 pol2 u2 ut2 rnd2 = Inr fa \<and> cs2 div bs2 \<noteq> 0 \<and>
       (pol2 = PSEUDO_LRU \<longrightarrow> unat (cs2 div bs2) \<le> 2 ^ 31)
      \<longrightarrow> (\<exists>fa'. run_trace FullyAssocCache_access fa t2 = Inr fa'))
   \<and> (SetAssocCache_new cs3 bs3 nw3 pol3 u3 ut3 rnd3 = Inr sa \<and> (cs3 div bs3) div nw3 \<noteq> 0 \<and>
       (pol3 = PSEUDO_LRU \<longrightarrow> unat nw3 \<le> 2 ^ 31)
      \<longrightarrow> (\<exists>sa'. run_trace SetAssocCache_access sa t3 = Inr sa'))"
proof (intro conjI impI)
  assume "DirectMappedCache_new cs1 bs1 u1 ut1 = Inr dm \<and> cs1 div bs1 \<noteq> 0"
  then have "dm_well_formed dm" by (auto intro: DirectMappedCache_new_well_formed)
  from run_trace_total [of dm_well_formed DirectMappedCache_access, OF _ this]
    DirectMappedCache_access_total
  show "\<exists>dm'. run_trace DirectMappedCache_access dm t1 = Inr dm'" by blast
next
  assume "FullyAssocCache_new cs2 bs2 pol2 u2 ut2 rnd2 = Inr fa \<and> cs2 div bs2 \<noteq> 0 \<and>
       (pol2 = PSEUDO_LRU \<longrightarrow> unat (cs2 div bs2) \<le> 2 ^ 31)"
  then have "fa_well_formed fa" by (auto intro: FullyAssocCache_new_well_formed)
  from run_trace_total [of fa_well_formed FullyAssocCache_access, OF _ this]
    FullyAssocCache_access_total
  show "\<exists>fa'. run_trace FullyAssocCache_access fa t2 = Inr fa'" by blast
next
  assume "SetAssocCache_new cs3 bs3 nw3 pol3 u3 ut3 rnd3 = Inr sa \<and> (cs3 div bs3) div nw3 \<noteq> 0 \<and>
       (pol3 = PSEUDO_LRU \<longrightarrow> unat nw3 \<le> 2 ^ 31)"
  then have "sa_well_formed sa" by (auto intro: SetAssocCache_new_well_formed)
  from run_trace_total [of sa_well_formed SetAssocCache_access, OF _ this]
    SetAssocCache_access_total
  show "\<exists>sa'. run_trace SetAssocCache_access sa t3 = Inr sa'" by blast
qed

section \<open>The miss categories partition the misses\<close>

text \<open>
  Claim C3.  For each of the three organizations, from the freshly constructed cache
  and after every trace of reads and writes that the model runs (so after each access
  of it), \<open>compulsory_misses + capacity_misses + conflict_misses = cache_misses\<close>
  (in \<^verbatim>\<open>uint32_t\<close> arithmetic, as the counters are).  And every trace does run,
  without fault, when the geometry is in range: at least one block, for the
  set-associative cache at least one set, and under pseudo-LRU at most \<open>2 ^ 31\<close> ways.
\<close>

theorem miss_categories_partition:
  "(DirectMappedCache_new cs1 bs1 u1 ut1 = Inr dm \<and>
      run_trace DirectMappedCache_access dm t1 = Inr dm' \<longrightarrow>
        compulsory_misses (access_info dm') + capacity_misses (access_info dm')
          + conflict_misses (access_info dm') = cache_misses (access_info dm'))
   \<and> (FullyAssocCache_new cs2 bs2 pol2 u2 ut2 rnd2 = Inr fa \<and>
      run_trace FullyAssocCache_access fa t2 = Inr fa' \<longrightarrow>
        compulsory_misses (access_info fa') + capacity_misses (access_info fa')
          + conflict_misses (access_info fa') = cache_misses (access_info fa'))
   \<and> (SetAssocCache_new cs3 bs3 nw3 pol3 u3 ut3 rnd3 = Inr sa \<and>
      run_trace SetAssocCache_access sa t3 = Inr sa' \<longrightarrow>
        compulsory_misses (access_info sa') + capacity_misses (access_info sa')
          + conflict_misses (access_info sa') = cache_misses (access_info sa'))
   \<and> (DirectMappedCache_new cs4 bs4 u4 ut4 = Inr dm4 \<and> cs4 div bs4 \<noteq> 0
      \<longrightarrow> (\<exists>dm'. run_trace DirectMappedCache_access dm4 t4 = Inr dm'))
   \<and> (FullyAssocCache_new cs5 bs5 pol5 u5 ut5 rnd5 = Inr fa5 \<and> cs5 div bs5 \<noteq> 0 \<and>
       (pol5 = PSEUDO_LRU \<longrightarrow> unat (cs5 div bs5) \<le> 2 ^ 31)
      \<longrightarrow> (\<exists>fa'. run_trace FullyAssocCache_access fa5 t5 = Inr fa'))
   \<and> (SetAssocCache_new cs6 bs6 nw6 pol6 u6 ut6 rnd6 = Inr sa6 \<and> (cs6 div bs6) div nw6 \<noteq> 0 \<and>
       (pol6 = PSEUDO_LRU \<longrightarrow> unat nw6 \<le> 2 ^ 31)
      \<longrightarrow> (\<exists>sa'. run_trace SetAssocCache_access sa6 t6 = Inr sa'))"
proof -
  have init: "miss_partition AccessInfo_new"
    by (simp add: miss_partition_def AccessInfo_new_def)
  have dm: "miss_partition (access_info dm')"
    if "DirectMappedCache_new cs1 bs1 u1 ut1 = Inr dm"
      "run_trace DirectMappedCache_access dm t1 = Inr dm'"
    using run_trace_invariant
        [of DirectMappedCache_access "\<lambda>c. miss_partition (access_info c)", OF _ that(2)]
      DirectMappedCache_access_miss_partition new_info(1) [OF that(1)] init by auto
  have fa: "miss_partition (access_info fa')"
    if "FullyAssocCache_new cs2 bs2 pol2 u2 ut2 rnd2 = Inr fa"
      "run_trace FullyAssocCache_access fa t2 = Inr fa'"
    using run_trace_invariant
        [of FullyAssocCache_access "\<lambda>c. miss_partition (access_info c)", OF _ that(2)]
      FullyAssocCache_access_miss_partition new_info(2) [OF that(1)] init by auto
  have sa: "miss_partition (access_info sa')"
    if "SetAssocCache_new cs3 bs3 nw3 pol3 u3 ut3 rnd3 = Inr sa"
      "run_trace SetAssocCache_access sa t3 = Inr sa'"
    using run_trace_invariant
        [of SetAssocCache_access "\<lambda>c. miss_partition (access_info c)", OF _ that(2)]
      SetAssocCache_access_miss_partition new_info(3) [OF that(1)] init by auto
  note total = constructed_caches_never_fault
    [where ?cs1.0 = cs4 and ?bs1.0 = bs4 and ?u1.0 = u4 and ?ut1.0 = ut4 and dm = dm4
       and ?t1.0 = t4
       and ?cs2.0 = cs5 and ?bs2.0 = bs5 and ?pol2.0 = pol5 and ?u2.0 = u5 and ?ut2.0 = ut5
       and ?rnd2.0 = rnd5 and fa = fa5 and ?t2.0 = t5
       and ?cs3.0 = cs6 and ?bs3.0 = bs6 and ?nw3.0 = nw6 and ?pol3.0 = pol6 and ?u3.0 = u6
       and ?ut3.0 = ut6 and ?rnd3.0 = rnd6 and sa = sa6 and ?t3.0 = t6]
  from dm fa sa have part:
    "(DirectMappedCache_new cs1 bs1 u1 ut1 = Inr dm \<and>
      run_trace DirectMappedCache_access dm t1 = Inr dm' \<longrightarrow>
        compulsory_misses (access_info dm') + capacity_misses (access_info dm')
          + conflict_misses (access_info dm') = cache_misses (access_info dm'))"
    "(FullyAssocCache_new cs2 bs2 pol2 u2 ut2 rnd2 = Inr fa \<and>
      run_trace FullyAssocCache_access fa t2 = Inr fa' \<longrightarrow>
        compulsory_misses (access_info fa') + capacity_misses (access_info fa')
          + conflict_misses (access_info fa') = cache_misses (access_info fa'))"
    "(SetAssocCache_new cs3 bs3 nw3 pol3 u3 ut3 rnd3 = Inr sa \<and>
      run_trace SetAssocCache_access sa t3 = Inr sa' \<longrightarrow>
        compulsory_misses (access_info sa') + capacity_misses (access_info sa')
          + conflict_misses (access_info sa') = cache_misses (access_info sa'))"
    by (auto simp: miss_partition_def)
  show ?thesis
    apply (intro conjI)
    subgoal using part(1) .
    subgoal using part(2) .
    subgoal using part(3) .
    subgoal using total by blast
    subgoal using total by blast
    subgoal using total by blast
    done
qed

theorem miss_categories_partition_witness:
  "(\<exists>dm dm'. DirectMappedCache_new 128 64 0 unset_ones = Inr dm \<and>
      run_trace DirectMappedCache_access dm
        [(ReadAccess, 0), (WriteAccess, 0x80), (ReadAccess, 0)] = Inr dm' \<and>
      cache_misses (access_info dm') = 3 \<and>
      compulsory_misses (access_info dm') + capacity_misses (access_info dm')
        + conflict_misses (access_info dm') = cache_misses (access_info dm'))
   \<and> (\<exists>fa fa'. FullyAssocCache_new 128 64 LRU 0 unset_ones no_rand = Inr fa \<and>
      run_trace FullyAssocCache_access fa
        [(ReadAccess, 0), (WriteAccess, 0x80), (ReadAccess, 0x100), (ReadAccess, 0)] = Inr fa' \<and>
      cache_misses (access_info fa') = 4 \<and>
      compulsory_misses (access_info fa') + capacity_misses (access_info fa')
        + conflict_misses (access_info fa') = cache_misses (access_info fa'))
   \<and> (\<exists>sa sa'. SetAssocCache_new 256 64 2 PSEUDO_LRU 0 unset_ones2 no_rand = Inr sa \<and>
      run_trace SetAssocCache_access sa
        [(ReadAccess, 0), (WriteAccess, 0x100), (ReadAccess, 0x200), (ReadAccess, 0)] = Inr sa' \<and>
      cache_misses (access_info sa') = 4 \<and>
      compulsory_misses (access_info sa') + capacity_misses (access_info sa')
        + conflict_misses (access_info sa') = cache_misses (access_info sa'))"
proof -
  obtain dm dm' where dm: "DirectMappedCache_new 128 64 0 unset_ones = Inr dm"
      "run_trace DirectMappedCache_access dm
        [(ReadAccess, 0), (WriteAccess, 0x80), (ReadAccess, 0)] = Inr dm'"
      "cache_misses (access_info dm') = 3"
    by (simp add: new_defs access_defs)
  obtain fa fa' where fa: "FullyAssocCache_new 128 64 LRU 0 unset_ones no_rand = Inr fa"
      "run_trace FullyAssocCache_access fa
        [(ReadAccess, 0), (WriteAccess, 0x80), (ReadAccess, 0x100), (ReadAccess, 0)] = Inr fa'"
      "cache_misses (access_info fa') = 4"
    by (simp add: new_defs access_defs)
  obtain sa sa' where sa: "SetAssocCache_new 256 64 2 PSEUDO_LRU 0 unset_ones2 no_rand = Inr sa"
      "run_trace SetAssocCache_access sa
        [(ReadAccess, 0), (WriteAccess, 0x100), (ReadAccess, 0x200), (ReadAccess, 0)] = Inr sa'"
      "cache_misses (access_info sa') = 4"
    by (simp add: new_defs access_defs plru_walk.simps toggle_ancestors.simps)
  from miss_categories_partition
    [where ?cs1.0 = 128 and ?bs1.0 = 64 and ?u1.0 = 0 and ?ut1.0 = unset_ones and dm = dm
       and ?t1.0 = "[(ReadAccess, 0), (WriteAccess, 0x80), (ReadAccess, 0)]" and dm' = dm'
       and ?cs2.0 = 128 and ?bs2.0 = 64 and ?pol2.0 = LRU and ?u2.0 = 0 and ?ut2.0 = unset_ones
       and ?rnd2.0 = no_rand and fa = fa
       and ?t2.0 = "[(ReadAccess, 0), (WriteAccess, 0x80), (ReadAccess, 0x100), (ReadAccess, 0)]"
       and fa' = fa'
       and ?cs3.0 = 256 and ?bs3.0 = 64 and ?nw3.0 = 2 and ?pol3.0 = PSEUDO_LRU and ?u3.0 = 0
       and ?ut3.0 = unset_ones2 and ?rnd3.0 = no_rand and sa = sa
       and ?t3.0 = "[(ReadAccess, 0), (WriteAccess, 0x100), (ReadAccess, 0x200), (ReadAccess, 0)]"
       and sa' = sa'
       and ?cs4.0 = 128 and ?bs4.0 = 64 and ?u4.0 = 0 and ?ut4.0 = unset_ones and ?dm4.0 = dm
       and ?t4.0 = "[(ReadAccess, 0), (WriteAccess, 0x80), (ReadAccess, 0)]"
       and ?cs5.0 = 128 and ?bs5.0 = 64 and ?pol5.0 = LRU and ?u5.0 = 0 and ?ut5.0 = unset_ones
       and ?rnd5.0 = no_rand and ?fa5.0 = fa
       and ?t5.0 = "[(ReadAccess, 0), (WriteAccess, 0x80), (ReadAccess, 0x100), (ReadAccess, 0)]"
       and ?cs6.0 = 256 and ?bs6.0 = 64 and ?nw6.0 = 2 and ?pol6.0 = PSEUDO_LRU and ?u6.0 = 0
       and ?ut6.0 = unset_ones2 and ?rnd6.0 = no_rand and ?sa6.0 = sa
       and ?t6.0 = "[(ReadAccess, 0), (WriteAccess, 0x100), (ReadAccess, 0x200), (ReadAccess, 0)]"]
    dm fa sa
  show ?thesis by blast
qed

end
